theory Spec2Isabelle
  imports Main "HOL-Library.Extended_Nat"
begin

section \<open>Values, errors and options\<close>

text \<open>
  The repository holds two revisions of the class \<open>EventPool\<close>: the older one in
  \<^verbatim>\<open>src/lib/pool.js\<close> (its methods carry the suffix \<open>_v1\<close> here) and the newer
  one in \<^verbatim>\<open>src/unnamed/part_000\<close> (\<open>emitWithOptions\<close>, \<open>emit\<close>, \<open>emitAndWait\<close>,
  \<open>pull\<close>). Both are embedded over one state type: the pool object, the heap of event
  records with the promise each \<open>emit\<close> returns, the promise chains of the \<open>pull\<close> calls,
  the timers of the runtime and its queue of promise jobs (microtasks).

  The plain object \<open>queues\<close> is a map from property names to queue stubs. Property names
  that a JavaScript object inherits with a meaning of their own (\<^verbatim>\<open>__proto__\<close>,
  \<^verbatim>\<open>hasOwnProperty\<close>) are not told apart from other names in this model.
\<close>

datatype jsval = Undefined | Null | Bool bool | Num int | Str string | Obj

fun falsy :: "jsval \<Rightarrow> bool" where
  "falsy Undefined = True"
| "falsy Null = True"
| "falsy (Bool b) = (\<not> b)"
| "falsy (Num n) = (n = 0)"
| "falsy (Str s) = (s = [])"
| "falsy Obj = False"

fun typeof :: "jsval \<Rightarrow> string" where
  "typeof Undefined = ''undefined''"
| "typeof Null = ''object''"
| "typeof (Bool b) = ''boolean''"
| "typeof (Num n) = ''number''"
| "typeof (Str s) = ''string''"
| "typeof Obj = ''object''"

text \<open>The property name a recipient id selects, once the id is known to be a string.\<close>

fun key_of :: "jsval \<Rightarrow> string" where
  "key_of (Str s) = s"
| "key_of _ = []"

datatype error =
    TypeError string
  | PlainError string
  | ENOMEM string
  | ETIMEDOUT string
  | TimeoutError string
  | Failure jsval

datatype 'a promise = Pending | Fulfilled 'a | Rejected error

text \<open>What a call of a method of the pool gives back to its caller.\<close>

datatype ret = Throws error | RejectedPromise error | EmitPromise nat | PullPromise nat

record event_options =
  maxPendingEvents :: enat
  pendingTimeout :: enat
  handlingTimeout :: enat
  waitForHandlers :: bool

text \<open>An options object as a caller passes it: any of the properties may be absent.\<close>

record overrides =
  with_maxPendingEvents :: "enat option"
  with_pendingTimeout :: "enat option"
  with_handlingTimeout :: "enat option"
  with_waitForHandlers :: "bool option"

definition no_overrides :: overrides where
  "no_overrides = \<lparr>with_maxPendingEvents = None, with_pendingTimeout = None,
     with_handlingTimeout = None, with_waitForHandlers = None\<rparr>"

text \<open>\<^verbatim>\<open>Object.assign( {}, base, ov )\<close>: a property of \<open>ov\<close> wins over the one of \<open>base\<close>.\<close>

definition assign :: "event_options \<Rightarrow> overrides \<Rightarrow> event_options" where
  "assign base ov =
     \<lparr>maxPendingEvents = (case with_maxPendingEvents ov of None \<Rightarrow> maxPendingEvents base | Some v \<Rightarrow> v),
      pendingTimeout = (case with_pendingTimeout ov of None \<Rightarrow> pendingTimeout base | Some v \<Rightarrow> v),
      handlingTimeout = (case with_handlingTimeout ov of None \<Rightarrow> handlingTimeout base | Some v \<Rightarrow> v),
      waitForHandlers = (case with_waitForHandlers ov of None \<Rightarrow> waitForHandlers base | Some v \<Rightarrow> v)\<rparr>"

text \<open>\<open>DefaultOptions\<close> has no property \<open>waitForHandlers\<close>; reading it gives a falsy value.\<close>

definition DefaultOptions :: event_options where
  "DefaultOptions = \<lparr>maxPendingEvents = 100, pendingTimeout = \<infinity>, handlingTimeout = \<infinity>,
     waitForHandlers = False\<rparr>"

section \<open>Event records, queue stubs, promise chains, timers\<close>

datatype signal = Pulled | Handled | Failed | Fetched

text \<open>
  The functions the pool registers with \<open>event.once\<close>, one constructor per closure of the
  source: \<open>resolve\<close> and \<open>reject\<close> of the promise of record \<open>k\<close>, the two arrow functions
  of \<open>emitWithOptions\<close> around \<open>clearTimeout\<close> and \<open>setTimeout\<close>, and the arrow function
  of \<open>pull\<close> around \<open>active.delete\<close>.
\<close>

datatype listener =
    Resolve nat
  | Reject nat
  | ClearPendingTimer nat
  | ArmHandlingTimer nat nat
  | ActiveDelete string nat

text \<open>
  The promise jobs. A \<open>pull\<close> builds the chain \<open>source.then(f).catch(g)\<close> where \<open>source\<close>
  is \<open>Promise.resolve()\<close> or \<open>Promise.race([a, b])\<close>: \<open>RaceFulfil\<close> and \<open>RaceReject\<close> are
  the reactions of the race to \<open>a\<close> and \<open>b\<close>, \<open>ThenJob\<close> runs \<open>f\<close>, \<open>ThenSkip\<close> passes a
  rejection of \<open>source\<close> on, \<open>CatchJob\<close> runs \<open>g\<close> and \<open>CatchSkip\<close> passes the value of
  \<open>f\<close> on. \<open>CleanupCatch\<close> and \<open>CleanupThen\<close> are the two links of
  \<open>promise.catch(...).then(...)\<close> in \<open>emitWithOptions\<close>.
\<close>

datatype job =
    RaceFulfil nat
  | RaceReject nat error
  | ThenJob nat
  | ThenJob_v1 nat bool
  | ThenSkip nat error
  | CatchJob nat error
  | CatchSkip nat nat
  | CleanupCatch nat
  | CleanupThen nat

text \<open>
  Modelled from the spec: the class \<open>Event\<close> (\<^verbatim>\<open>./event\<close>) is not among the sources.
  Section 3 of the specification gives a record an identifier, a name, an argument list
  and the effective options; the identifier of a record is its index in the list of
  records here, and a reference to a record is the same index. The record derives from
  the event emitter of the runtime: \<open>listeners\<close> holds the functions registered with
  \<open>once\<close>. The other fields belong to the \<open>emit\<close> call that made the record: the promise
  it returns, whether \<open>emitWithOptions\<close> has chained its clean-up to that promise, and
  its variables \<open>pendingTimer\<close> and \<open>handlingTimer\<close>.
\<close>

record event =
  e_name :: string
  e_arguments :: "jsval list"
  e_options :: "event_options option"
  listeners :: "signal \<Rightarrow> listener list"
  promise :: "jsval promise"
  cleanup :: bool
  pendingTimer :: "nat option"
  handlingTimer :: "nat option"

text \<open>
  Modelled from the spec: \<open>pull\<close> of the newer revision reads \<open>event.waitForHandlers\<close> of
  the missing class. Sections 3 and 4.2 of the specification tie the tracking of a record
  to the effective options of the record: "if the record's effective options indicate the
  emitter wants to wait for handled, the record is inserted into active". So the property
  is the flag \<open>waitForHandlers\<close> of the options the record was made with; a record of the
  older revision is made without options and has no such property.
\<close>

definition event_waitForHandlers :: "event \<Rightarrow> jsval" where
  "event_waitForHandlers ev =
     (case e_options ev of None \<Rightarrow> Undefined | Some opts \<Rightarrow> Bool (waitForHandlers opts))"

text \<open>
  The function stored in \<open>stub.waitingSoNotify\<close> by the pull call \<open>p\<close>: the bare
  \<open>resolve\<close> in the older revision, an arrow function that first clears the slot in the
  newer one.
\<close>

datatype notifier = Resolver nat | Notifier nat

record stub =
  active :: "nat \<rightharpoonup> nat"
  pending :: "nat list"
  waitingSoNotify :: "notifier option"

record pull_call =
  recipient :: string
  on_fulfilled :: job
  notified :: bool
  race :: "unit promise"
  result :: "nat promise"

datatype callback = OnTimeout nat string | RejectRace nat error

datatype timer_status = Armed | Cleared | Fired

record timer =
  callback :: callback
  delay :: nat
  status :: timer_status

record state =
  options :: event_options
  queues :: "string \<rightharpoonup> stub"
  events :: "event list"
  pulls :: "pull_call list"
  timers :: "timer list"
  jobs :: "job list"

text \<open>The constructor of the newer revision.\<close>

definition EventPool :: "overrides \<Rightarrow> state" where
  "EventPool ov = \<lparr>options = assign DefaultOptions ov, queues = Map.empty, events = [],
     pulls = [], timers = [], jobs = []\<rparr>"

text \<open>
  The constructor of the older revision. Its pool has no property \<open>options\<close> and none of
  its methods reads one; the field holds the value without any bound.
\<close>

definition EventPool_v1 :: state where
  "EventPool_v1 = \<lparr>options = \<lparr>maxPendingEvents = \<infinity>, pendingTimeout = \<infinity>,
       handlingTimeout = \<infinity>, waitForHandlers = False\<rparr>,
     queues = Map.empty, events = [], pulls = [], timers = [], jobs = []\<rparr>"

section \<open>Runtime primitives\<close>

definition enqueue :: "job \<Rightarrow> state \<Rightarrow> state" where
  "enqueue j s = s\<lparr>jobs := jobs s @ [j]\<rparr>"

definition upd_event :: "nat \<Rightarrow> (event \<Rightarrow> event) \<Rightarrow> state \<Rightarrow> state" where
  "upd_event k f s = s\<lparr>events := (events s)[k := f (events s ! k)]\<rparr>"

definition upd_pull :: "nat \<Rightarrow> (pull_call \<Rightarrow> pull_call) \<Rightarrow> state \<Rightarrow> state" where
  "upd_pull p f s = s\<lparr>pulls := (pulls s)[p := f (pulls s ! p)]\<rparr>"

definition new_stub :: stub where
  "new_stub = \<lparr>active = Map.empty, pending = [], waitingSoNotify = None\<rparr>"

text \<open>
  \<open>queues\<close> is a plain object, \<^verbatim>\<open>{}\<close>, and the model keeps its own properties: \<open>queues s r\<close>
  is the stub stored under the key \<open>r\<close>, if \<^verbatim>\<open>queues.hasOwnProperty( r )\<close>. Two keys are not like
  the others, since the object inherits from \<^verbatim>\<open>Object.prototype\<close>.

  \<^item> \<^verbatim>\<open>queues["__proto__"] = {...}\<close> runs the setter of \<^verbatim>\<open>Object.prototype\<close>: the new stub becomes
    the prototype of \<open>queues\<close> and no own property is made. So every call for the recipient
    \<^verbatim>\<open>"__proto__"\<close> finds \<open>hasOwnProperty\<close> false, makes a new stub and reads it back with
    \<^verbatim>\<open>queues["__proto__"]\<close>. That stub is held by this call and its closures only: no other
    call can reach it. What a call reads from it is what a new stub holds (a method reads
    \<open>pending\<close> before it writes it, and \<open>waitingSoNotify\<close> of a stub another call has written
    is never read), and what it writes there no one else reads. \<open>stub_of\<close> gives the new
    stub for this key and \<open>upd_stub\<close> stores nothing.

  \<^item> \<^verbatim>\<open>queues["hasOwnProperty"] = {...}\<close> makes an own property that shadows the method. In
    every later call \<^verbatim>\<open>this.queues.hasOwnProperty\<close> is that stub, and calling it throws a
    \<open>TypeError\<close>: \<open>shadowed\<close>.

  Every other name that \<^verbatim>\<open>Object.prototype\<close> defines is a writable data property, which the
  assignment shadows with an own property as for any other key.
\<close>

definition proto :: string where
  "proto = ''__proto__''"

definition shadowed :: "state \<Rightarrow> bool" where
  "shadowed s = (queues s ''hasOwnProperty'' \<noteq> None)"

text \<open>The stub a closure or a method holds for recipient \<open>r\<close>.\<close>

definition stub_of :: "state \<Rightarrow> string \<Rightarrow> stub" where
  "stub_of s r =
     (if r = proto then new_stub
      else case queues s r of Some st \<Rightarrow> st | None \<Rightarrow> new_stub)"

definition upd_stub :: "string \<Rightarrow> (stub \<Rightarrow> stub) \<Rightarrow> state \<Rightarrow> state" where
  "upd_stub r f s = (if r = proto then s else s\<lparr>queues := (queues s)(r \<mapsto> f (stub_of s r))\<rparr>)"

text \<open>\<^verbatim>\<open>if ( !this.queues.hasOwnProperty( recipientId ) ) { this.queues[recipientId] = {...} }\<close>\<close>

definition ensure_stub :: "string \<Rightarrow> state \<Rightarrow> state" where
  "ensure_stub r s =
     (if r \<noteq> proto \<and> queues s r = None then s\<lparr>queues := (queues s)(r \<mapsto> new_stub)\<rparr> else s)"

definition setTimeout :: "callback \<Rightarrow> nat \<Rightarrow> state \<Rightarrow> nat \<times> state" where
  "setTimeout cb d s =
     (length (timers s), s\<lparr>timers := timers s @ [\<lparr>callback = cb, delay = d, status = Armed\<rparr>]\<rparr>)"

definition set_status :: "nat \<Rightarrow> timer_status \<Rightarrow> state \<Rightarrow> state" where
  "set_status h st s = s\<lparr>timers := (timers s)[h := (timers s ! h)\<lparr>status := st\<rparr>]\<rparr>"

text \<open>\<open>clearTimeout\<close> of \<open>null\<close>, of a timer that has fired or of a cleared one does nothing.\<close>

definition clearTimeout :: "nat option \<Rightarrow> state \<Rightarrow> state" where
  "clearTimeout t s =
     (case t of
        None \<Rightarrow> s
      | Some h \<Rightarrow>
          if h < length (timers s) \<and> status (timers s ! h) = Armed
          then set_status h Cleared s
          else s)"

text \<open>
  \<open>resolve\<close> and \<open>reject\<close> of the promise of record \<open>k\<close>: only the first call settles the
  promise, and settling queues the reaction that \<open>emitWithOptions\<close> has chained to it.
  A reference is the index of a record that exists; for an index beyond the records
  (no run of the pool makes one) the function leaves the state as it is.
\<close>

definition settle :: "nat \<Rightarrow> jsval promise \<Rightarrow> state \<Rightarrow> state" where
  "settle k outcome s =
     (let ev = events s ! k in
      if k < length (events s) \<and> promise ev = Pending
      then (upd_event k (\<lambda>ev. ev\<lparr>promise := outcome\<rparr>) s)
             \<lparr>jobs := jobs s @ (if cleanup ev then [CleanupCatch k] else [])\<rparr>
      else s)"

fun run_listener :: "jsval \<Rightarrow> listener \<Rightarrow> state \<Rightarrow> state" where
  "run_listener v (Resolve k) s = settle k (Fulfilled v) s"
| "run_listener v (Reject k) s = settle k (Rejected (Failure v)) s"
| "run_listener v (ClearPendingTimer k) s = clearTimeout (pendingTimer (events s ! k)) s"
| "run_listener v (ArmHandlingTimer k d) s =
     (let (h, s1) = setTimeout (OnTimeout k ''event handling timed otu'') d s
      in upd_event k (\<lambda>ev. ev\<lparr>handlingTimer := Some h\<rparr>) s1)"
| "run_listener v (ActiveDelete r k) s = upd_stub r (\<lambda>st. st\<lparr>active := (active st)(k := None)\<rparr>) s"

text \<open>\<open>event.once( sig, l )\<close>\<close>

definition event_once :: "nat \<Rightarrow> signal \<Rightarrow> listener \<Rightarrow> state \<Rightarrow> state" where
  "event_once k sig l s =
     upd_event k (\<lambda>ev. ev\<lparr>listeners := (listeners ev)(sig := listeners ev sig @ [l])\<rparr>) s"

text \<open>
  \<open>event.emit( sig, v )\<close>: the functions registered for \<open>sig\<close> run in the order of their
  registration, each one once. None of them registers or emits on a record, so taking
  all of them off the record before the first one runs is what the emitter does.
\<close>

definition event_emit :: "nat \<Rightarrow> signal \<Rightarrow> jsval \<Rightarrow> state \<Rightarrow> state" where
  "event_emit k sig v s =
     fold (run_listener v) (listeners (events s ! k) sig)
       (upd_event k (\<lambda>ev. ev\<lparr>listeners := (listeners ev)(sig := [])\<rparr>) s)"

text \<open>\<open>resolve\<close> of the first promise of the race of pull call \<open>p\<close>.\<close>

definition resolve_waiting :: "nat \<Rightarrow> state \<Rightarrow> state" where
  "resolve_waiting p s =
     (if notified (pulls s ! p) then s
      else enqueue (RaceFulfil p) (upd_pull p (\<lambda>c. c\<lparr>notified := True\<rparr>) s))"

fun call_notifier :: "string \<Rightarrow> notifier \<Rightarrow> state \<Rightarrow> state" where
  "call_notifier r (Resolver p) s = resolve_waiting p s"
| "call_notifier r (Notifier p) s =
     resolve_waiting p (upd_stub r (\<lambda>st. st\<lparr>waitingSoNotify := None\<rparr>) s)"

text \<open>\<^verbatim>\<open>if ( stub.waitingSoNotify ) { stub.waitingSoNotify(); }\<close>\<close>

definition notify :: "string \<Rightarrow> state \<Rightarrow> state" where
  "notify r s = (case waitingSoNotify (stub_of s r) of None \<Rightarrow> s | Some n \<Rightarrow> call_notifier r n s)"

definition invalid_recipient :: "jsval \<Rightarrow> bool" where
  "invalid_recipient recipientId = (falsy recipientId \<or> typeof recipientId \<noteq> ''string'')"

text \<open>
  Modelled from the spec: \<open>new Event( name, args, options )\<close> of the missing class makes
  a record with a fresh identifier, no listener, and the options as given.
\<close>

definition new_Event :: "string \<Rightarrow> jsval list \<Rightarrow> event_options option \<Rightarrow> state \<Rightarrow> nat \<times> state" where
  "new_Event eventName eventArguments opts s =
     (length (events s),
      s\<lparr>events := events s @
          [\<lparr>e_name = eventName, e_arguments = eventArguments, e_options = opts,
            listeners = (\<lambda>sig. []), promise = Pending, cleanup = False,
            pendingTimer = None, handlingTimer = None\<rparr>]\<rparr>)"

section \<open>The newer revision\<close>

text \<open>
  The function that \<open>emitWithOptions\<close> passes to \<open>new Promise\<close> for the record \<open>k\<close>. It
  runs within the call.
\<close>

definition promise_executor :: "nat \<Rightarrow> signal \<Rightarrow> event_options \<Rightarrow> state \<Rightarrow> state" where
  "promise_executor k resolvingEvent opts s =
     (let s1 = event_once k resolvingEvent (Resolve k) s;
          s2 = event_once k Failed (Reject k) s1;
          s3 = (if 0 < pendingTimeout opts \<and> pendingTimeout opts < \<infinity>
                then let (h, t) = setTimeout (OnTimeout k ''pending event timed out'')
                                    (the_enat (pendingTimeout opts)) s2
                     in event_once k Pulled (ClearPendingTimer k)
                          (upd_event k (\<lambda>ev. ev\<lparr>pendingTimer := Some h\<rparr>) t)
                else s2)
      in if resolvingEvent = Handled \<and> 0 < handlingTimeout opts \<and> handlingTimeout opts < \<infinity>
         then event_once k Pulled (ArmHandlingTimer k (the_enat (handlingTimeout opts))) s3
         else s3)"

definition emitWithOptions ::
  "jsval \<Rightarrow> string \<Rightarrow> jsval list \<Rightarrow> overrides \<Rightarrow> state \<Rightarrow> ret \<times> state" where
  "emitWithOptions recipientId eventName eventArguments ov s =
     (if invalid_recipient recipientId
      then (RejectedPromise (TypeError ''invalid recipient ID''), s)
      else if shadowed s
      then (Throws (TypeError ''this.queues.hasOwnProperty is not a function''), s)
      else
        let r = key_of recipientId;
            s1 = ensure_stub r s
        in if enat (length (pending (stub_of s1 r))) \<ge> maxPendingEvents (options s1)
           then (RejectedPromise (ENOMEM (''too many pending events for recipient '' @ r)), s1)
           else
             let opts = assign (options s1) ov;
                 (k, s2) = new_Event eventName eventArguments (Some opts) s1;
                 s3 = upd_stub r (\<lambda>st. st\<lparr>pending := pending st @ [k]\<rparr>) s2;
                 s4 = notify r s3;
                 resolvingEvent = (if waitForHandlers opts then Handled else Pulled);
                 s5 = promise_executor k resolvingEvent opts s4;
                 s6 = upd_event k (\<lambda>ev. ev\<lparr>cleanup := True\<rparr>) s5
             in (EmitPromise k, s6))"

definition emit :: "jsval \<Rightarrow> string \<Rightarrow> jsval list \<Rightarrow> state \<Rightarrow> ret \<times> state" where
  "emit recipientId eventName eventArguments s =
     emitWithOptions recipientId eventName eventArguments no_overrides s"

definition emitAndWait :: "jsval \<Rightarrow> string \<Rightarrow> jsval list \<Rightarrow> state \<Rightarrow> ret \<times> state" where
  "emitAndWait recipientId eventName eventArguments s =
     emitWithOptions recipientId eventName eventArguments
       (no_overrides\<lparr>with_waitForHandlers := Some True\<rparr>) s"

definition new_pull :: "string \<Rightarrow> job \<Rightarrow> unit promise \<Rightarrow> state \<Rightarrow> nat \<times> state" where
  "new_pull r f source s =
     (length (pulls s),
      s\<lparr>pulls := pulls s @
          [\<lparr>recipient = r, on_fulfilled = f, notified = False, race = source,
            result = Pending\<rparr>]\<rparr>)"

definition pull :: "jsval \<Rightarrow> nat \<Rightarrow> state \<Rightarrow> ret \<times> state" where
  "pull recipientId timeout s =
     (if invalid_recipient recipientId
      then (RejectedPromise (TypeError ''invalid recipient ID''), s)
      else if shadowed s
      then (Throws (TypeError ''this.queues.hasOwnProperty is not a function''), s)
      else
        let r = key_of recipientId;
            s1 = ensure_stub r s;
            p = length (pulls s1)
        in if length (pending (stub_of s1 r)) > 0
           then let (p, s2) = new_pull r (ThenJob p) (Fulfilled ()) s1
                in (PullPromise p, enqueue (ThenJob p) s2)
           else let (p, s2) = new_pull r (ThenJob p) Pending s1;
                    s3 = upd_stub r (\<lambda>st. st\<lparr>waitingSoNotify := Some (Notifier p)\<rparr>) s2;
                    (h, s4) = setTimeout
                                (RejectRace p (TimeoutError ''timeout on waiting for event''))
                                timeout s3
                in (PullPromise p, s4))"

text \<open>
  \<^verbatim>\<open>if ( event.waitForHandlers ) { active.set( event.id, event ); event.once( "handled", ... ) }\<close>
\<close>

definition track :: "string \<Rightarrow> nat \<Rightarrow> state \<Rightarrow> state" where
  "track r k s =
     (if \<not> falsy (event_waitForHandlers (events s ! k))
      then event_once k Handled (ActiveDelete r k)
             (upd_stub r (\<lambda>st. st\<lparr>active := (active st)(k \<mapsto> k)\<rparr>) s)
      else s)"

text \<open>
  The function passed to \<open>then\<close>. On an empty queue \<open>pending.shift()\<close> gives \<open>undefined\<close>
  and reading a property of it throws, which rejects the promise of \<open>then\<close>.
\<close>

definition pull_then :: "nat \<Rightarrow> state \<Rightarrow> state" where
  "pull_then p s =
     (let r = recipient (pulls s ! p);
          s1 = upd_stub r (\<lambda>st. st\<lparr>waitingSoNotify := None\<rparr>) s
      in case pending (stub_of s1 r) of
           [] \<Rightarrow> enqueue (CatchJob p (TypeError ''Cannot read property of undefined'')) s1
         | k # rest \<Rightarrow>
             let s2 = upd_stub r (\<lambda>st. st\<lparr>pending := rest\<rparr>) s1;
                 s3 = track r k s2;
                 s4 = event_emit k Pulled Undefined s3
             in enqueue (CatchSkip p k) s4)"

text \<open>The function passed to \<open>catch\<close>; it throws the error again.\<close>

definition pull_catch :: "nat \<Rightarrow> error \<Rightarrow> state \<Rightarrow> state" where
  "pull_catch p err s =
     (let r = recipient (pulls s ! p);
          s1 = upd_stub r (\<lambda>st. st\<lparr>waitingSoNotify := None\<rparr>) s
      in upd_pull p (\<lambda>c. c\<lparr>result := Rejected err\<rparr>) s1)"

section \<open>The older revision\<close>

definition emit_v1 :: "jsval \<Rightarrow> string \<Rightarrow> jsval list \<Rightarrow> state \<Rightarrow> ret \<times> state" where
  "emit_v1 recipientId eventName eventArguments s =
     (if invalid_recipient recipientId
      then (Throws (TypeError ''invalid recipient ID''), s)
      else if shadowed s
      then (Throws (TypeError ''this.queues.hasOwnProperty is not a function''), s)
      else
        let r = key_of recipientId;
            s1 = ensure_stub r s;
            (k, s2) = new_Event eventName eventArguments None s1;
            s3 = upd_stub r (\<lambda>st. st\<lparr>pending := pending st @ [k]\<rparr>) s2;
            s4 = notify r s3;
            s5 = event_once k Fetched (Resolve k) s4;
            s6 = event_once k Failed (Reject k) s5
        in (EmitPromise k, s6))"

definition pull_v1 :: "jsval \<Rightarrow> nat \<Rightarrow> bool \<Rightarrow> state \<Rightarrow> ret \<times> state" where
  "pull_v1 recipientId timeout waitForResolution s =
     (if invalid_recipient recipientId
      then (Throws (TypeError ''invalid recipient ID''), s)
      else if shadowed s
      then (Throws (TypeError ''this.queues.hasOwnProperty is not a function''), s)
      else
        let r = key_of recipientId;
            s1 = ensure_stub r s;
            p = length (pulls s1)
        in if length (pending (stub_of s1 r)) > 0
           then let (p, s2) = new_pull r (ThenJob_v1 p waitForResolution) (Fulfilled ()) s1
                in (PullPromise p, enqueue (ThenJob_v1 p waitForResolution) s2)
           else let (p, s2) = new_pull r (ThenJob_v1 p waitForResolution) Pending s1;
                    s3 = upd_stub r (\<lambda>st. st\<lparr>waitingSoNotify := Some (Resolver p)\<rparr>) s2;
                    (h, s4) = setTimeout (RejectRace p (PlainError ''timeout'')) timeout s3
                in (PullPromise p, s4))"

definition pull_then_v1 :: "nat \<Rightarrow> bool \<Rightarrow> state \<Rightarrow> state" where
  "pull_then_v1 p waitForResolution s =
     (let r = recipient (pulls s ! p);
          s1 = upd_stub r (\<lambda>st. st\<lparr>waitingSoNotify := None\<rparr>) s
      in case pending (stub_of s1 r) of
           [] \<Rightarrow> enqueue (CatchJob p (TypeError ''Cannot read property of undefined'')) s1
         | k # rest \<Rightarrow>
             let s2 = upd_stub r (\<lambda>st. st\<lparr>pending := rest\<rparr>) s1;
                 s3 = (if waitForResolution
                       then upd_stub r (\<lambda>st. st\<lparr>active := (active st)(k \<mapsto> k)\<rparr>) s2
                       else s2);
                 s4 = event_emit k Fetched Undefined s3
             in enqueue (CatchSkip p k) s4)"

section \<open>Promise jobs, timers and the steps of a run\<close>

fun run_job :: "job \<Rightarrow> state \<Rightarrow> state" where
  "run_job (RaceFulfil p) s =
     (if p < length (pulls s) \<and> race (pulls s ! p) = Pending
      then enqueue (on_fulfilled (pulls s ! p)) (upd_pull p (\<lambda>c. c\<lparr>race := Fulfilled ()\<rparr>) s)
      else s)"
| "run_job (RaceReject p err) s =
     (if p < length (pulls s) \<and> race (pulls s ! p) = Pending
      then enqueue (ThenSkip p err) (upd_pull p (\<lambda>c. c\<lparr>race := Rejected err\<rparr>) s)
      else s)"
| "run_job (ThenJob p) s = pull_then p s"
| "run_job (ThenJob_v1 p w) s = pull_then_v1 p w s"
| "run_job (ThenSkip p err) s = enqueue (CatchJob p err) s"
| "run_job (CatchJob p err) s = pull_catch p err s"
| "run_job (CatchSkip p k) s = upd_pull p (\<lambda>c. c\<lparr>result := Fulfilled k\<rparr>) s"
| "run_job (CleanupCatch k) s = enqueue (CleanupThen k) s"
| "run_job (CleanupThen k) s =
     clearTimeout (handlingTimer (events s ! k)) (clearTimeout (pendingTimer (events s ! k)) s)"

fun run_callback :: "callback \<Rightarrow> state \<Rightarrow> state" where
  "run_callback (OnTimeout k message) s = settle k (Rejected (ETIMEDOUT message)) s"
| "run_callback (RejectRace p err) s = enqueue (RaceReject p err) s"

text \<open>
  \<open>tick\<close> runs the oldest promise job. A timer fires only when it is armed and no
  promise job is left. \<open>signal\<close> is \<open>event.emit\<close> called by the code around the pool on a
  record it holds.
\<close>

definition tick :: "state \<Rightarrow> state" where
  "tick s = (case jobs s of [] \<Rightarrow> s | j # js \<Rightarrow> run_job j (s\<lparr>jobs := js\<rparr>))"

definition fire :: "nat \<Rightarrow> state \<Rightarrow> state" where
  "fire h s =
     (if jobs s = [] \<and> h < length (timers s) \<and> status (timers s ! h) = Armed
      then run_callback (callback (timers s ! h)) (set_status h Fired s)
      else s)"

definition signal :: "nat \<Rightarrow> signal \<Rightarrow> jsval \<Rightarrow> state \<Rightarrow> state" where
  "signal k sig v s = (if k < length (events s) then event_emit k sig v s else s)"

text \<open>
  The steps of a run: a call of a method and a signal on a record may come at any point
  of the code around the pool, between any two promise jobs.
\<close>

datatype action =
    Emit jsval string "jsval list"
  | EmitAndWait jsval string "jsval list"
  | EmitWithOptions jsval string "jsval list" overrides
  | Pull jsval nat
  | Emit_v1 jsval string "jsval list"
  | Pull_v1 jsval nat bool
  | Signal nat signal jsval
  | Tick
  | Fire nat

fun step :: "action \<Rightarrow> state \<Rightarrow> state" where
  "step (Emit r n a) s = snd (emit r n a s)"
| "step (EmitAndWait r n a) s = snd (emitAndWait r n a s)"
| "step (EmitWithOptions r n a ov) s = snd (emitWithOptions r n a ov s)"
| "step (Pull r t) s = snd (pull r t s)"
| "step (Emit_v1 r n a) s = snd (emit_v1 r n a s)"
| "step (Pull_v1 r t w) s = snd (pull_v1 r t w s)"
| "step (Signal k sig v) s = signal k sig v s"
| "step Tick s = tick s"
| "step (Fire h) s = fire h s"

definition run :: "action list \<Rightarrow> state \<Rightarrow> state" where
  "run acts s = fold step acts s"

text \<open>
  \<open>drain\<close> runs the promise jobs until none is left, as the runtime does before it
  comes back to its timers. It ends on every state: each job lowers \<open>potential\<close>, which
  weighs the jobs in the queue, the promises of the records that are still pending and
  the races that are still undecided.
\<close>

fun job_weight :: "job \<Rightarrow> nat" where
  "job_weight (RaceFulfil p) = 1"
| "job_weight (RaceReject p err) = 1"
| "job_weight (ThenJob p) = 2"
| "job_weight (ThenJob_v1 p w) = 2"
| "job_weight (ThenSkip p err) = 2"
| "job_weight (CatchJob p err) = 1"
| "job_weight (CatchSkip p k) = 1"
| "job_weight (CleanupCatch k) = 2"
| "job_weight (CleanupThen k) = 1"

definition event_weight :: "event \<Rightarrow> nat" where
  "event_weight ev = (if promise ev = Pending then 3 else 0)"

definition pull_weight :: "pull_call \<Rightarrow> nat" where
  "pull_weight c = (if race c = Pending then 3 + job_weight (on_fulfilled c) else 0)"

definition potential :: "state \<Rightarrow> nat" where
  "potential s = sum_list (map job_weight (jobs s)) + sum_list (map event_weight (events s))
     + sum_list (map pull_weight (pulls s))"

function drain :: "state \<Rightarrow> state" where
  "drain s = (if jobs s = [] then s else drain (tick s))"
  by pat_completeness auto

section \<open>Well-formed states and reachable states\<close>

text \<open>
  In a state that a run of the pool reaches, every reference points to a record or a call
  that exists: a listener of a record refers to that record, the pending queues hold
  records, the jobs and timers refer to records and calls, a notifier in a stub belongs
  to a pull for that recipient, the reaction of a race is the \<open>then\<close> of its own call, and
  the timer variables of a record hold timers made for that record.
\<close>

fun target :: "listener \<Rightarrow> nat" where
  "target (Resolve k) = k"
| "target (Reject k) = k"
| "target (ClearPendingTimer k) = k"
| "target (ArmHandlingTimer k d) = k"
| "target (ActiveDelete r k) = k"

fun job_ok :: "state \<Rightarrow> job \<Rightarrow> bool" where
  "job_ok s (RaceFulfil p) = (p < length (pulls s))"
| "job_ok s (RaceReject p err) = (p < length (pulls s))"
| "job_ok s (ThenJob p) = (p < length (pulls s))"
| "job_ok s (ThenJob_v1 p w) = (p < length (pulls s))"
| "job_ok s (ThenSkip p err) = (p < length (pulls s))"
| "job_ok s (CatchJob p err) = (p < length (pulls s))"
| "job_ok s (CatchSkip p k) = (p < length (pulls s) \<and> k < length (events s))"
| "job_ok s (CleanupCatch k) = (k < length (events s))"
| "job_ok s (CleanupThen k) = (k < length (events s))"

fun callback_ok :: "state \<Rightarrow> callback \<Rightarrow> bool" where
  "callback_ok s (OnTimeout k m) = (k < length (events s))"
| "callback_ok s (RejectRace p err) = (p < length (pulls s))"

fun notifier_pull :: "notifier \<Rightarrow> nat" where
  "notifier_pull (Resolver p) = p"
| "notifier_pull (Notifier p) = p"

fun then_job_of :: "nat \<Rightarrow> job \<Rightarrow> bool" where
  "then_job_of p (ThenJob q) = (q = p)"
| "then_job_of p (ThenJob_v1 q w) = (q = p)"
| "then_job_of p _ = False"

definition wf_listeners :: "state \<Rightarrow> bool" where
  "wf_listeners s = (\<forall>k<length (events s). \<forall>sig. \<forall>l\<in>set (listeners (events s ! k) sig). target l = k)"

definition wf_pending :: "state \<Rightarrow> bool" where
  "wf_pending s = (\<forall>r. \<forall>k\<in>set (pending (stub_of s r)). k < length (events s))"

definition wf_jobs :: "state \<Rightarrow> bool" where
  "wf_jobs s = (\<forall>j\<in>set (jobs s). job_ok s j)"

definition wf_timers :: "state \<Rightarrow> bool" where
  "wf_timers s = (\<forall>h<length (timers s). callback_ok s (callback (timers s ! h)))"

definition wf_slots :: "state \<Rightarrow> bool" where
  "wf_slots s = (\<forall>r n. waitingSoNotify (stub_of s r) = Some n \<longrightarrow>
     notifier_pull n < length (pulls s) \<and> recipient (pulls s ! notifier_pull n) = r)"

definition wf_pulls :: "state \<Rightarrow> bool" where
  "wf_pulls s = (\<forall>p<length (pulls s). then_job_of p (on_fulfilled (pulls s ! p)))"

definition wf_vars :: "state \<Rightarrow> bool" where
  "wf_vars s = (\<forall>k<length (events s). \<forall>h.
     (pendingTimer (events s ! k) = Some h \<longrightarrow>
        h < length (timers s) \<and> callback (timers s ! h) = OnTimeout k ''pending event timed out'')
   \<and> (handlingTimer (events s ! k) = Some h \<longrightarrow>
        h < length (timers s) \<and> callback (timers s ! h) = OnTimeout k ''event handling timed otu''))"

definition wf_results :: "state \<Rightarrow> bool" where
  "wf_results s = (\<forall>p<length (pulls s). \<forall>k. result (pulls s ! p) = Fulfilled k \<longrightarrow> k < length (events s))"

definition wf :: "state \<Rightarrow> bool" where
  "wf s = (wf_listeners s \<and> wf_pending s \<and> wf_jobs s \<and> wf_timers s \<and> wf_slots s \<and> wf_pulls s
     \<and> wf_vars s \<and> wf_results s)"

text \<open>The states a run reaches from a new pool of either revision.\<close>

inductive reachable :: "state \<Rightarrow> bool" where
  new: "reachable (EventPool ov)"
| new_v1: "reachable EventPool_v1"
| step: "reachable s \<Longrightarrow> reachable (step a s)"

section \<open>A pull that waits\<close>

text \<open>The timers of pull calls in \<open>t\<close> are those of \<open>s\<close>, in the same status.\<close>

definition race_timers_same :: "state \<Rightarrow> state \<Rightarrow> bool" where
  "race_timers_same s t =
     (length (timers s) \<le> length (timers t) \<and> length (pulls s) \<le> length (pulls t)
      \<and> (\<forall>h<length (timers s). callback (timers t ! h) = callback (timers s ! h))
      \<and> (\<forall>h<length (timers s). \<forall>q e. callback (timers s ! h) = RejectRace q e \<longrightarrow>
            status (timers t ! h) = status (timers s ! h))
      \<and> (\<forall>h<length (timers t). \<forall>q e. callback (timers t ! h) = RejectRace q e \<longrightarrow>
            h < length (timers s) \<or> length (pulls s) \<le> q))"

text \<open>
  The pull call a job belongs to, and the actions that emit for recipient \<open>r\<close>.
\<close>

fun job_pull :: "job \<Rightarrow> nat option" where
  "job_pull (RaceFulfil p) = Some p"
| "job_pull (RaceReject p err) = Some p"
| "job_pull (ThenJob p) = Some p"
| "job_pull (ThenJob_v1 p w) = Some p"
| "job_pull (ThenSkip p err) = Some p"
| "job_pull (CatchJob p err) = Some p"
| "job_pull (CatchSkip p k) = Some p"
| "job_pull (CleanupCatch k) = None"
| "job_pull (CleanupThen k) = None"

fun emits_to :: "string \<Rightarrow> action \<Rightarrow> bool" where
  "emits_to r (Emit v n a) = (v = Str r)"
| "emits_to r (EmitAndWait v n a) = (v = Str r)"
| "emits_to r (EmitWithOptions v n a ov) = (v = Str r)"
| "emits_to r (Emit_v1 v n a) = (v = Str r)"
| "emits_to r _ = False"

text \<open>
  The pull call \<open>p\<close> for recipient \<open>r\<close> is suspended: its race is undecided, its timer
  \<open>h\<close> is armed and is the only timer that rejects its race, no job of the queue belongs
  to it, and the pending queue of \<open>r\<close> is empty.
\<close>

definition waiting :: "nat \<Rightarrow> nat \<Rightarrow> error \<Rightarrow> string \<Rightarrow> state \<Rightarrow> bool" where
  "waiting p h err r s =
     (p < length (pulls s) \<and> recipient (pulls s ! p) = r \<and> race (pulls s ! p) = Pending
      \<and> result (pulls s ! p) = Pending
      \<and> h < length (timers s) \<and> callback (timers s ! h) = RejectRace p err
      \<and> status (timers s ! h) = Armed
      \<and> (\<forall>j\<in>set (jobs s). job_pull j \<noteq> Some p)
      \<and> (\<forall>h'<length (timers s). \<forall>e. callback (timers s ! h') = RejectRace p e \<longrightarrow> h' = h)
      \<and> pending (stub_of s r) = [])"

section \<open>Where a record can go\<close>

text \<open>
  The record \<open>k\<close> is confined to recipient \<open>r\<close>: no pending queue of another recipient
  holds it, and a pull that has it as its value, or is about to get it, is a pull for
  \<open>r\<close>.
\<close>

definition confined :: "nat \<Rightarrow> string \<Rightarrow> state \<Rightarrow> bool" where
  "confined k r s =
     (k < length (events s)
      \<and> (\<forall>r'. r' \<noteq> r \<longrightarrow> k \<notin> set (pending (stub_of s r')))
      \<and> (\<forall>p<length (pulls s). result (pulls s ! p) = Fulfilled k \<longrightarrow> recipient (pulls s ! p) = r)
      \<and> (\<forall>p. CatchSkip p k \<in> set (jobs s) \<longrightarrow> p < length (pulls s) \<and> recipient (pulls s ! p) = r))"

text \<open>
  The pulls of recipient \<open>r\<close> are served in the order of the calls. \<open>serving P E n r m d s\<close>
  describes a pool in which the records \<open>E\<close>, ..., \<open>E + n - 1\<close> were queued for \<open>r\<close>, in
  that order, the pull calls \<open>P\<close>, ..., \<open>P + m - 1\<close> were made for \<open>r\<close> since then, and the
  functions passed to \<open>then\<close> of the first \<open>d\<close> of these calls have run: the queue holds the
  records from \<open>E + d\<close> on, the functions of the other calls wait in the job queue in the
  order of the calls, and the call \<open>P + i\<close> with \<open>i < d\<close> has resolved to the record \<open>E + i\<close>
  or the job that resolves it so is in the queue.
\<close>

fun pulls_from :: "string \<Rightarrow> action \<Rightarrow> bool" where
  "pulls_from r (Pull v t) = (v = Str r)"
| "pulls_from r (Pull_v1 v t w) = (v = Str r)"
| "pulls_from r _ = False"

fun is_then :: "job \<Rightarrow> bool" where
  "is_then (ThenJob p) = True"
| "is_then (ThenJob_v1 p w) = True"
| "is_then _ = False"

fun is_cleanup :: "job \<Rightarrow> bool" where
  "is_cleanup (CleanupCatch k) = True"
| "is_cleanup (CleanupThen k) = True"
| "is_cleanup _ = False"

definition serving :: "nat \<Rightarrow> nat \<Rightarrow> nat \<Rightarrow> string \<Rightarrow> nat \<Rightarrow> nat \<Rightarrow> state \<Rightarrow> bool" where
  "serving P E n r m d t =
     (d \<le> m \<and> m \<le> n \<and> length (pulls t) = P + m
      \<and> (\<forall>i<m. recipient (pulls t ! (P + i)) = r)
      \<and> pending (stub_of t r) = map ((+) E) [d..<n]
      \<and> map job_pull (filter is_then (jobs t)) = map (\<lambda>i. Some (P + i)) [d..<m]
      \<and> (\<forall>j\<in>set (jobs t). is_then j \<or> is_cleanup j \<or> (\<exists>i<d. j = CatchSkip (P + i) (E + i)))
      \<and> (\<forall>i<d. result (pulls t ! (P + i)) = Fulfilled (E + i)
              \<or> CatchSkip (P + i) (E + i) \<in> set (jobs t)))"

text \<open>The name and the arguments of a record, and those an emit call was given.\<close>

definition payload :: "event \<Rightarrow> string \<times> jsval list" where
  "payload ev = (e_name ev, e_arguments ev)"

fun emitted :: "action \<Rightarrow> string \<times> jsval list" where
  "emitted (Emit v n a) = (n, a)"
| "emitted (EmitAndWait v n a) = (n, a)"
| "emitted (EmitWithOptions v n a ov) = (n, a)"
| "emitted (Emit_v1 v n a) = (n, a)"
| "emitted _ = ([], [])"

section \<open>The steps of the newer revision and the records a stub tracks\<close>

text \<open>
  The steps of the newer revision: everything but the two methods of the older revision.
  \<open>older_job\<close> is the function the older \<open>pull\<close> passes to \<open>then\<close>; \<open>newer_jobs\<close> says
  that no such function waits in the job queue or in a suspended pull, which holds as
  long as only steps of the newer revision are taken.
\<close>

fun newer :: "action \<Rightarrow> bool" where
  "newer (Emit_v1 r n a) = False"
| "newer (Pull_v1 r t w) = False"
| "newer _ = True"

fun older_job :: "job \<Rightarrow> bool" where
  "older_job (ThenJob_v1 q b) = True"
| "older_job _ = False"

definition newer_jobs :: "state \<Rightarrow> bool" where
  "newer_jobs s =
     ((\<forall>j\<in>set (jobs s). \<not> older_job j)
      \<and> (\<forall>p<length (pulls s). \<not> older_job (on_fulfilled (pulls s ! p))))"

text \<open>
  \<open>tracked\<close>: a record in the \<open>active\<close> map of a stub is stored under its own identifier,
  its property \<open>waitForHandlers\<close> is true, the function of \<open>pull\<close> that takes it off the
  map is registered for \<open>handled\<close> on it, and it is in no pending queue. The function is
  registered by \<open>once\<close> in the same step that puts the record into the map and it is taken
  off the record by the first \<open>handled\<close> after that, so its presence says that the record
  has been pulled and \<open>handled\<close> has not been signalled since.

  \<open>listed\<close> and \<open>queued_once\<close> are what it takes to carry \<open>tracked\<close> from a state to the next:
  such a function is registered for no other signal than \<open>handled\<close>, and a record is in
  at most one pending queue, at most once.
\<close>

definition tracked :: "state \<Rightarrow> bool" where
  "tracked s =
     (\<forall>r k. active (stub_of s r) k \<noteq> None \<longrightarrow>
        k < length (events s)
      \<and> active (stub_of s r) k = Some k
      \<and> \<not> falsy (event_waitForHandlers (events s ! k))
      \<and> ActiveDelete r k \<in> set (listeners (events s ! k) Handled)
      \<and> (\<forall>r'. k \<notin> set (pending (stub_of s r'))))"

definition listed :: "state \<Rightarrow> bool" where
  "listed s =
     (\<forall>k<length (events s). \<forall>sg r.
        ActiveDelete r k \<in> set (listeners (events s ! k) sg) \<longrightarrow> sg = Handled)"

definition queued_once :: "state \<Rightarrow> bool" where
  "queued_once s =
     ((\<forall>r. distinct (pending (stub_of s r)))
      \<and> (\<forall>r r'. r \<noteq> r' \<longrightarrow> set (pending (stub_of s r)) \<inter> set (pending (stub_of s r')) = {}))"

definition tracking :: "state \<Rightarrow> bool" where
  "tracking s = (tracked s \<and> listed s \<and> queued_once s)"

section \<open>Example pools\<close>

definition tight :: overrides where
  "tight = no_overrides\<lparr>with_maxPendingEvents := Some 1\<rparr>"

text \<open>A pool with the default options after \<^verbatim>\<open>emit( "r", "a" )\<close>.\<close>

definition one_pending :: state where
  "one_pending = snd (emit (Str ''r'') ''a'' [] (EventPool no_overrides))"

text \<open>A pool made with \<^verbatim>\<open>{ maxPendingEvents: 1 }\<close> after \<^verbatim>\<open>emit( "r", "a" )\<close>.\<close>

definition full_pool :: state where
  "full_pool = snd (emit (Str ''r'') ''a'' [] (EventPool tight))"


text \<open>A new pool after \<^verbatim>\<open>pull( "r", 1000 )\<close>: the pull is suspended.\<close>

definition suspended :: state where
  "suspended = snd (pull (Str ''r'') 1000 (EventPool no_overrides))"

text \<open>
  A new pool after two emits and two pulls for the recipient \<^verbatim>\<open>"__proto__"\<close>, when the promise
  jobs have run.
\<close>

definition lost :: state where
  "lost = drain (run [Emit (Str ''__proto__'') ''first'' [], Emit (Str ''__proto__'') ''second'' [],
                      Pull (Str ''__proto__'') 1000, Pull (Str ''__proto__'') 1000]
                 (EventPool no_overrides))"

text \<open>
  A pool made with \<^verbatim>\<open>{ pendingTimeout: 50, handlingTimeout: 50 }\<close>, after
  \<^verbatim>\<open>emitAndWait( "r", "e" )\<close> and the firing of the pending timer, which no pull has come
  before: \<open>unpulled\<close>. Then \<^verbatim>\<open>pull( "r", 1000 )\<close>, the run of the promise jobs, the signal
  \<open>handled\<close> on the record and again the run of the promise jobs: \<open>leaked\<close>.
\<close>

definition impatient :: overrides where
  "impatient = no_overrides\<lparr>with_pendingTimeout := Some (enat 50), with_handlingTimeout := Some (enat 50)\<rparr>"

definition unpulled :: state where
  "unpulled = drain (fire 0 (snd (emitAndWait (Str ''r'') ''e'' [] (EventPool impatient))))"

definition leaked :: state where
  "leaked = drain (signal 0 Handled Undefined (drain (snd (pull (Str ''r'') 1000 unpulled))))"

text \<open>A new pool after \<^verbatim>\<open>emit( "hasOwnProperty", "e" )\<close>.\<close>

definition shadowing :: state where
  "shadowing = snd (emit (Str ''hasOwnProperty'') ''e'' [] (EventPool no_overrides))"

text \<open>
  A new pool after \<^verbatim>\<open>emitAndWait( "r", "e" )\<close> and \<^verbatim>\<open>pull( "r" )\<close>: the function the pull
  has passed to \<open>then\<close> is the next promise job.
\<close>

definition pulling :: state where
  "pulling = run [EmitAndWait (Str ''r'') ''e'' [], Pull (Str ''r'') 30000] (EventPool no_overrides)"

text \<open>
  A pool of the older revision after \<^verbatim>\<open>emit( "r", "e" )\<close>, \<^verbatim>\<open>pull( "r", 30000, true )\<close>, the
  run of the promise jobs and \<open>handled\<close> signalled on the record.
\<close>

definition kept_v1 :: state where
  "kept_v1 = signal 0 Handled Undefined (drain (snd (pull_v1 (Str ''r'') 30000 True
     (snd (emit_v1 (Str ''r'') ''e'' [] EventPool_v1)))))"

section \<open>The run of the promise jobs ends\<close>

lemma sum_list_map_update:
  fixes f :: "'a \<Rightarrow> nat"
  assumes "k < length xs"
  shows "sum_list (map f (xs[k := y])) + f (xs ! k) = sum_list (map f xs) + f y"
  using assms
proof (induction xs arbitrary: k)
  case Nil
  then show ?case by simp
next
  case (Cons x xs)
  then show ?case by (cases k) auto
qed

lemma potential_upd_stub [simp]: "potential (upd_stub r f s) = potential s"
  by (simp add: potential_def upd_stub_def)

lemma potential_clearTimeout [simp]: "potential (clearTimeout t s) = potential s"
  by (simp add: potential_def clearTimeout_def set_status_def split: option.splits)

lemma potential_enqueue [simp]: "potential (enqueue j s) = potential s + job_weight j"
  by (simp add: potential_def enqueue_def)

lemma potential_settle: "outcome \<noteq> Pending \<Longrightarrow> potential (settle k outcome s) \<le> potential s"
proof (cases "k < length (events s) \<and> promise (events s ! k) = Pending")
  case True
  have "sum_list (map event_weight ((events s)[k := (events s ! k)\<lparr>promise := outcome\<rparr>]))
          + event_weight (events s ! k)
        = sum_list (map event_weight (events s)) + event_weight ((events s ! k)\<lparr>promise := outcome\<rparr>)"
    using True by (intro sum_list_map_update) simp
  moreover have "event_weight (events s ! k) = 3" using True by (simp add: event_weight_def)
  moreover assume "outcome \<noteq> Pending"
  then have "event_weight ((events s ! k)\<lparr>promise := outcome\<rparr>) = 0" by (simp add: event_weight_def)
  ultimately show ?thesis using True
    by (simp add: settle_def potential_def upd_event_def Let_def)
next
  case False
  then show ?thesis by (auto simp: settle_def Let_def)
qed

lemma potential_upd_event_keep:
  assumes "\<And>ev. promise (f ev) = promise ev"
  shows "potential (upd_event k f s) = potential s"
proof (cases "k < length (events s)")
  case True
  have "sum_list (map event_weight ((events s)[k := f (events s ! k)])) + event_weight (events s ! k)
        = sum_list (map event_weight (events s)) + event_weight (f (events s ! k))"
    using True by (intro sum_list_map_update) simp
  moreover have "event_weight (f (events s ! k)) = event_weight (events s ! k)"
    using assms by (simp add: event_weight_def)
  ultimately show ?thesis by (simp add: potential_def upd_event_def)
next
  case False
  then show ?thesis by (simp add: potential_def upd_event_def list_update_beyond)
qed

lemma potential_setTimeout [simp]: "potential (snd (setTimeout cb d s)) = potential s"
  by (simp add: potential_def setTimeout_def)

lemma potential_run_listener: "potential (run_listener v l s) \<le> potential s"
proof (cases l)
  case (ArmHandlingTimer k d)
  then show ?thesis
    using potential_setTimeout [of "OnTimeout k ''event handling timed otu''" d s]
    by (simp add: potential_upd_event_keep case_prod_beta)
qed (simp_all add: potential_settle)

lemma potential_fold_listeners: "potential (fold (run_listener v) ls s) \<le> potential s"
proof (induction ls arbitrary: s)
  case Nil
  then show ?case by simp
next
  case (Cons l ls)
  have "potential (fold (run_listener v) ls (run_listener v l s)) \<le> potential (run_listener v l s)"
    by (rule Cons.IH)
  also have "\<dots> \<le> potential s" by (rule potential_run_listener)
  finally show ?case by simp
qed

lemma potential_event_emit: "potential (event_emit k sig v s) \<le> potential s"
proof -
  have "potential (event_emit k sig v s)
        \<le> potential (upd_event k (\<lambda>ev. ev\<lparr>listeners := (listeners ev)(sig := [])\<rparr>) s)"
    unfolding event_emit_def by (rule potential_fold_listeners)
  then show ?thesis by (simp add: potential_upd_event_keep)
qed

lemma potential_event_once [simp]: "potential (event_once k sig l s) = potential s"
  by (simp add: event_once_def potential_upd_event_keep)

lemma potential_track [simp]: "potential (track r k s) = potential s"
  by (simp add: track_def)

lemma potential_upd_pull_keep:
  assumes "\<And>c. race (f c) = race c" and "\<And>c. on_fulfilled (f c) = on_fulfilled c"
  shows "potential (upd_pull p f s) = potential s"
proof (cases "p < length (pulls s)")
  case True
  have "sum_list (map pull_weight ((pulls s)[p := f (pulls s ! p)])) + pull_weight (pulls s ! p)
        = sum_list (map pull_weight (pulls s)) + pull_weight (f (pulls s ! p))"
    using True by (intro sum_list_map_update) simp
  moreover have "pull_weight (f (pulls s ! p)) = pull_weight (pulls s ! p)"
    using assms by (simp add: pull_weight_def)
  ultimately show ?thesis by (simp add: potential_def upd_pull_def)
next
  case False
  then show ?thesis by (simp add: potential_def upd_pull_def list_update_beyond)
qed

lemma potential_upd_pull_race:
  assumes "p < length (pulls s)" and "race (pulls s ! p) = Pending"
    and "race (f (pulls s ! p)) \<noteq> Pending"
  shows "potential (upd_pull p f s) + 3 + job_weight (on_fulfilled (pulls s ! p)) = potential s"
proof -
  have "sum_list (map pull_weight ((pulls s)[p := f (pulls s ! p)])) + pull_weight (pulls s ! p)
        = sum_list (map pull_weight (pulls s)) + pull_weight (f (pulls s ! p))"
    using assms(1) by (intro sum_list_map_update) simp
  moreover have "pull_weight (f (pulls s ! p)) = 0" using assms(3) by (simp add: pull_weight_def)
  moreover have "pull_weight (pulls s ! p) = 3 + job_weight (on_fulfilled (pulls s ! p))"
    using assms(2) by (simp add: pull_weight_def)
  ultimately show ?thesis by (simp add: potential_def upd_pull_def)
qed

lemma potential_pull_then: "potential (pull_then p s) \<le> potential s + 1"
proof -
  have "potential (event_emit k Pulled Undefined t) \<le> potential s"
    if "potential t = potential s" for k t
    using potential_event_emit [of k Pulled Undefined t] that by simp
  then show ?thesis
    by (auto simp: pull_then_def Let_def split: list.splits)
qed

lemma potential_pull_then_v1: "potential (pull_then_v1 p w s) \<le> potential s + 1"
proof -
  have "potential (event_emit k Fetched Undefined t) \<le> potential s"
    if "potential t = potential s" for k t
    using potential_event_emit [of k Fetched Undefined t] that by simp
  then show ?thesis
    by (auto simp: pull_then_v1_def Let_def split: list.splits)
qed

lemma potential_pull_catch [simp]: "potential (pull_catch p err s) = potential s"
  by (simp add: pull_catch_def Let_def potential_upd_pull_keep)

lemma potential_jobs_tl: "jobs s = j # js \<Longrightarrow> potential (s\<lparr>jobs := js\<rparr>) + job_weight j = potential s"
  by (simp add: potential_def)

lemma potential_run_job: "potential (run_job j s) < potential s + job_weight j"
proof (cases j)
  case (RaceFulfil p)
  then show ?thesis
    using potential_upd_pull_race [of p s "\<lambda>c. c\<lparr>race := Fulfilled ()\<rparr>"] by auto
next
  case (RaceReject p err)
  then show ?thesis
    using potential_upd_pull_race [of p s "\<lambda>c. c\<lparr>race := Rejected err\<rparr>"] by auto
next
  case (ThenJob p)
  then show ?thesis using potential_pull_then [of p s] by simp
next
  case (ThenJob_v1 p w)
  then show ?thesis using potential_pull_then_v1 [of p w s] by simp
next
  case (CatchSkip p k)
  then show ?thesis by (simp add: potential_upd_pull_keep)
qed simp_all

lemma potential_tick: "jobs s \<noteq> [] \<Longrightarrow> potential (tick s) < potential s"
proof -
  assume "jobs s \<noteq> []"
  then obtain j js where js: "jobs s = j # js" by (cases "jobs s") auto
  have "potential (run_job j (s\<lparr>jobs := js\<rparr>)) < potential (s\<lparr>jobs := js\<rparr>) + job_weight j"
    by (rule potential_run_job)
  then show ?thesis using js potential_jobs_tl [OF js] by (simp add: tick_def)
qed

termination drain
  by (relation "measure potential") (simp_all add: potential_tick)

declare drain.simps [simp del]

section \<open>Evaluation of concrete runs\<close>

lemmas model_defs =
  emit_def emitAndWait_def emitWithOptions_def promise_executor_def pull_def emit_v1_def
  pull_v1_def invalid_recipient_def ensure_stub_def stub_of_def upd_stub_def new_stub_def new_Event_def
  notify_def event_once_def upd_event_def upd_pull_def enqueue_def setTimeout_def
  set_status_def clearTimeout_def settle_def event_emit_def resolve_waiting_def new_pull_def pull_then_def
  pull_catch_def pull_then_v1_def EventPool_def EventPool_v1_def assign_def DefaultOptions_def
  no_overrides_def event_waitForHandlers_def tick_def fire_def signal_def run_def Let_def
  proto_def shadowed_def track_def

section \<open>What each primitive changes\<close>

lemma enqueue_fields [simp]:
  "options (enqueue j s) = options s" "queues (enqueue j s) = queues s"
  "events (enqueue j s) = events s" "pulls (enqueue j s) = pulls s"
  "timers (enqueue j s) = timers s" "jobs (enqueue j s) = jobs s @ [j]"
  by (simp_all add: enqueue_def)

lemma upd_event_fields [simp]:
  "options (upd_event k f s) = options s" "queues (upd_event k f s) = queues s"
  "pulls (upd_event k f s) = pulls s" "timers (upd_event k f s) = timers s"
  "jobs (upd_event k f s) = jobs s" "length (events (upd_event k f s)) = length (events s)"
  by (simp_all add: upd_event_def)

lemma events_upd_event:
  "events (upd_event k f s) ! i
     = (if i = k \<and> k < length (events s) then f (events s ! k) else events s ! i)"
  by (cases "k < length (events s)") (auto simp: upd_event_def list_update_beyond)

lemma upd_pull_fields [simp]:
  "options (upd_pull p f s) = options s" "queues (upd_pull p f s) = queues s"
  "events (upd_pull p f s) = events s" "timers (upd_pull p f s) = timers s"
  "jobs (upd_pull p f s) = jobs s" "length (pulls (upd_pull p f s)) = length (pulls s)"
  by (simp_all add: upd_pull_def)

lemma pulls_upd_pull:
  "pulls (upd_pull p f s) ! i
     = (if i = p \<and> p < length (pulls s) then f (pulls s ! p) else pulls s ! i)"
  by (cases "p < length (pulls s)") (auto simp: upd_pull_def list_update_beyond)

lemma upd_stub_fields [simp]:
  "options (upd_stub r f s) = options s" "events (upd_stub r f s) = events s"
  "pulls (upd_stub r f s) = pulls s" "timers (upd_stub r f s) = timers s"
  "jobs (upd_stub r f s) = jobs s"
  by (simp_all add: upd_stub_def)

lemma stub_of_proto [simp]: "stub_of s proto = new_stub"
  by (simp add: stub_of_def)

lemma upd_stub_proto [simp]: "upd_stub proto f s = s"
  by (simp add: upd_stub_def)

lemma ensure_stub_proto [simp]: "ensure_stub proto s = s"
  by (simp add: ensure_stub_def)

lemma new_stub_fields [simp]:
  "pending new_stub = []" "waitingSoNotify new_stub = None" "active new_stub = Map.empty"
  by (simp_all add: new_stub_def)

lemma nonempty_not_proto: "pending (stub_of s r) = k # rest \<Longrightarrow> r \<noteq> proto"
  by auto

lemma stub_of_upd_stub [simp]:
  "stub_of (upd_stub r f s) r' = (if r' = r \<and> r \<noteq> proto then f (stub_of s r) else stub_of s r')"
  by (simp add: upd_stub_def stub_of_def)

lemma queues_upd_stub [simp]:
  "queues (upd_stub r f s) r' = (if r' = r \<and> r \<noteq> proto then Some (f (stub_of s r)) else queues s r')"
  by (simp add: upd_stub_def)

lemma ensure_stub_fields [simp]:
  "options (ensure_stub r s) = options s" "events (ensure_stub r s) = events s"
  "pulls (ensure_stub r s) = pulls s" "timers (ensure_stub r s) = timers s"
  "jobs (ensure_stub r s) = jobs s"
  by (simp_all add: ensure_stub_def)

lemma stub_of_ensure_stub [simp]: "stub_of (ensure_stub r s) r' = stub_of s r'"
  by (simp add: ensure_stub_def stub_of_def)

lemma queues_ensure_stub:
  "queues (ensure_stub r s) r' = (if r' = r \<and> r \<noteq> proto then Some (stub_of s r) else queues s r')"
  by (auto simp: ensure_stub_def stub_of_def)

lemma stub_of_other_fields [simp]:
  "stub_of (enqueue j s) r = stub_of s r" "stub_of (upd_event k f s) r = stub_of s r"
  "stub_of (upd_pull p g s) r = stub_of s r"
  by (simp_all add: stub_of_def)

lemma setTimeout_fields [simp]:
  "fst (setTimeout cb d s) = length (timers s)"
  "options (snd (setTimeout cb d s)) = options s" "queues (snd (setTimeout cb d s)) = queues s"
  "events (snd (setTimeout cb d s)) = events s" "pulls (snd (setTimeout cb d s)) = pulls s"
  "jobs (snd (setTimeout cb d s)) = jobs s"
  "timers (snd (setTimeout cb d s)) = timers s @ [\<lparr>callback = cb, delay = d, status = Armed\<rparr>]"
  "stub_of (snd (setTimeout cb d s)) r = stub_of s r"
  by (simp_all add: setTimeout_def stub_of_def)

lemma set_status_fields [simp]:
  "options (set_status h st s) = options s" "queues (set_status h st s) = queues s"
  "events (set_status h st s) = events s" "pulls (set_status h st s) = pulls s"
  "jobs (set_status h st s) = jobs s" "length (timers (set_status h st s)) = length (timers s)"
  "stub_of (set_status h st s) r = stub_of s r"
  by (simp_all add: set_status_def stub_of_def)

lemma timers_set_status:
  "callback (timers (set_status h st s) ! i) = callback (timers s ! i)"
  "delay (timers (set_status h st s) ! i) = delay (timers s ! i)"
  "status (timers (set_status h st s) ! i)
     = (if i = h \<and> h < length (timers s) then st else status (timers s ! i))"
  by (cases "h < length (timers s)"; cases "i = h"; simp add: set_status_def list_update_beyond)+

lemma clearTimeout_fields [simp]:
  "options (clearTimeout t s) = options s" "queues (clearTimeout t s) = queues s"
  "events (clearTimeout t s) = events s" "pulls (clearTimeout t s) = pulls s"
  "jobs (clearTimeout t s) = jobs s" "length (timers (clearTimeout t s)) = length (timers s)"
  "stub_of (clearTimeout t s) r = stub_of s r"
  by (simp_all add: clearTimeout_def split: option.splits)

lemma timers_clearTimeout:
  "callback (timers (clearTimeout t s) ! h) = callback (timers s ! h)"
  "delay (timers (clearTimeout t s) ! h) = delay (timers s ! h)"
  "status (timers (clearTimeout t s) ! h)
     = (if t = Some h \<and> h < length (timers s) \<and> status (timers s ! h) = Armed then Cleared
        else status (timers s ! h))"
  by (auto simp: clearTimeout_def timers_set_status split: option.splits)

lemma settle_fields [simp]:
  "options (settle k outcome s) = options s" "queues (settle k outcome s) = queues s"
  "pulls (settle k outcome s) = pulls s" "timers (settle k outcome s) = timers s"
  "length (events (settle k outcome s)) = length (events s)"
  "stub_of (settle k outcome s) r = stub_of s r"
  by (simp_all add: settle_def Let_def stub_of_def)

lemma jobs_settle:
  "jobs (settle k outcome s)
     = jobs s @ (if k < length (events s) \<and> promise (events s ! k) = Pending \<and> cleanup (events s ! k)
                 then [CleanupCatch k] else [])"
  by (simp add: settle_def Let_def)

lemma events_settle:
  "events (settle k outcome s) ! i
     = (if i = k \<and> k < length (events s) \<and> promise (events s ! k) = Pending
        then (events s ! k)\<lparr>promise := outcome\<rparr> else events s ! i)"
  by (simp add: settle_def Let_def events_upd_event)

lemma new_Event_fields [simp]:
  "fst (new_Event n a opts s) = length (events s)"
  "options (snd (new_Event n a opts s)) = options s" "queues (snd (new_Event n a opts s)) = queues s"
  "pulls (snd (new_Event n a opts s)) = pulls s" "timers (snd (new_Event n a opts s)) = timers s"
  "jobs (snd (new_Event n a opts s)) = jobs s"
  "length (events (snd (new_Event n a opts s))) = Suc (length (events s))"
  "stub_of (snd (new_Event n a opts s)) r = stub_of s r"
  by (simp_all add: new_Event_def stub_of_def)

lemma events_new_Event:
  "i \<le> length (events s) \<Longrightarrow>
   events (snd (new_Event n a opts s)) ! i
     = (if i = length (events s)
        then \<lparr>e_name = n, e_arguments = a, e_options = opts, listeners = (\<lambda>sig. []),
               promise = Pending, cleanup = False, pendingTimer = None, handlingTimer = None\<rparr>
        else events s ! i)"
  by (simp add: new_Event_def nth_append)

lemma new_pull_fields [simp]:
  "fst (new_pull r f src s) = length (pulls s)"
  "options (snd (new_pull r f src s)) = options s" "queues (snd (new_pull r f src s)) = queues s"
  "events (snd (new_pull r f src s)) = events s" "timers (snd (new_pull r f src s)) = timers s"
  "jobs (snd (new_pull r f src s)) = jobs s"
  "length (pulls (snd (new_pull r f src s))) = Suc (length (pulls s))"
  "stub_of (snd (new_pull r f src s)) r' = stub_of s r'"
  by (simp_all add: new_pull_def stub_of_def)

lemma pulls_new_pull:
  "i \<le> length (pulls s) \<Longrightarrow>
   pulls (snd (new_pull r f src s)) ! i
     = (if i = length (pulls s)
        then \<lparr>recipient = r, on_fulfilled = f, notified = False, race = src, result = Pending\<rparr>
        else pulls s ! i)"
  by (simp add: new_pull_def nth_append)

lemma event_once_fields [simp]:
  "options (event_once k sig l s) = options s" "queues (event_once k sig l s) = queues s"
  "pulls (event_once k sig l s) = pulls s" "timers (event_once k sig l s) = timers s"
  "jobs (event_once k sig l s) = jobs s"
  "length (events (event_once k sig l s)) = length (events s)"
  "stub_of (event_once k sig l s) r = stub_of s r"
  by (simp_all add: event_once_def)

lemma events_event_once:
  "events (event_once k sig l s) ! i
     = (if i = k \<and> k < length (events s)
        then (events s ! k)\<lparr>listeners := (listeners (events s ! k))(sig := listeners (events s ! k) sig @ [l])\<rparr>
        else events s ! i)"
  by (simp add: event_once_def events_upd_event)

lemma track_fields [simp]:
  "options (track r k s) = options s" "pulls (track r k s) = pulls s"
  "timers (track r k s) = timers s" "jobs (track r k s) = jobs s"
  "length (events (track r k s)) = length (events s)"
  "pending (stub_of (track r k s) r') = pending (stub_of s r')"
  "waitingSoNotify (stub_of (track r k s) r') = waitingSoNotify (stub_of s r')"
  by (simp_all add: track_def)

lemma resolve_waiting_fields [simp]:
  "options (resolve_waiting p s) = options s" "queues (resolve_waiting p s) = queues s"
  "events (resolve_waiting p s) = events s" "timers (resolve_waiting p s) = timers s"
  "length (pulls (resolve_waiting p s)) = length (pulls s)"
  "stub_of (resolve_waiting p s) r = stub_of s r"
  by (simp_all add: resolve_waiting_def)

lemma pulls_resolve_waiting:
  "pulls (resolve_waiting p s) ! i
     = (if i = p \<and> p < length (pulls s) \<and> \<not> notified (pulls s ! p)
        then (pulls s ! p)\<lparr>notified := True\<rparr> else pulls s ! i)"
  by (simp add: resolve_waiting_def pulls_upd_pull)

lemma jobs_resolve_waiting:
  "jobs (resolve_waiting p s) = jobs s @ (if notified (pulls s ! p) then [] else [RaceFulfil p])"
  by (simp add: resolve_waiting_def)

lemma call_notifier_fields [simp]:
  "options (call_notifier r n s) = options s" "events (call_notifier r n s) = events s"
  "timers (call_notifier r n s) = timers s"
  "length (pulls (call_notifier r n s)) = length (pulls s)"
  by (cases n; simp)+

lemma notify_fields [simp]:
  "options (notify r s) = options s" "events (notify r s) = events s"
  "timers (notify r s) = timers s" "length (pulls (notify r s)) = length (pulls s)"
  by (simp_all add: notify_def split: option.splits)

lemma stub_of_notify:
  "stub_of (notify r s) r'
     = (if r' = r \<and> (\<exists>p. waitingSoNotify (stub_of s r) = Some (Notifier p))
        then (stub_of s r)\<lparr>waitingSoNotify := None\<rparr> else stub_of s r')"
proof (cases "waitingSoNotify (stub_of s r)")
  case None
  then show ?thesis by (simp add: notify_def)
next
  case (Some n)
  then show ?thesis by (cases n) (simp_all add: notify_def)
qed

lemma pulls_notify:
  "pulls (notify r s) ! i
     = (case waitingSoNotify (stub_of s r) of
          None \<Rightarrow> pulls s ! i
        | Some n \<Rightarrow>
            if i = notifier_pull n \<and> i < length (pulls s) \<and> \<not> notified (pulls s ! i)
            then (pulls s ! i)\<lparr>notified := True\<rparr> else pulls s ! i)"
proof (cases "waitingSoNotify (stub_of s r)")
  case None
  then show ?thesis by (simp add: notify_def)
next
  case (Some n)
  then show ?thesis by (cases n) (auto simp: notify_def pulls_resolve_waiting)
qed

lemma jobs_notify:
  "jobs (notify r s)
     = jobs s @ (case waitingSoNotify (stub_of s r) of
          None \<Rightarrow> []
        | Some n \<Rightarrow> if notified (pulls s ! notifier_pull n) then [] else [RaceFulfil (notifier_pull n)])"
proof (cases "waitingSoNotify (stub_of s r)")
  case None
  then show ?thesis by (simp add: notify_def)
next
  case (Some n)
  then show ?thesis by (cases n) (auto simp: notify_def jobs_resolve_waiting)
qed

lemma run_listener_fields [simp]:
  "options (run_listener v l s) = options s" "pulls (run_listener v l s) = pulls s"
  "length (events (run_listener v l s)) = length (events s)"
  by (cases l; simp add: case_prod_beta)+

lemma fold_run_listener_fields [simp]:
  "options (fold (run_listener v) ls s) = options s"
  "pulls (fold (run_listener v) ls s) = pulls s"
  "length (events (fold (run_listener v) ls s)) = length (events s)"
  by (induction ls arbitrary: s; simp)+

lemma event_emit_fields [simp]:
  "options (event_emit k sig v s) = options s" "pulls (event_emit k sig v s) = pulls s"
  "length (events (event_emit k sig v s)) = length (events s)"
  by (simp_all add: event_emit_def)

section \<open>Reachable states are well formed\<close>

lemmas wf_defs = wf_def wf_listeners_def wf_pending_def wf_jobs_def wf_timers_def wf_slots_def
  wf_pulls_def wf_vars_def wf_results_def

lemma job_ok_cong: "length (pulls t) = length (pulls s) \<Longrightarrow> length (events t) = length (events s) \<Longrightarrow>
  job_ok t j = job_ok s j"
  by (cases j) simp_all

lemma job_ok_mono: "length (pulls s) \<le> length (pulls t) \<Longrightarrow> length (events s) \<le> length (events t) \<Longrightarrow>
  job_ok s j \<Longrightarrow> job_ok t j"
  by (cases j) auto

lemma callback_ok_mono: "length (pulls s) \<le> length (pulls t) \<Longrightarrow> length (events s) \<le> length (events t) \<Longrightarrow>
  callback_ok s c \<Longrightarrow> callback_ok t c"
  by (cases c) auto

lemma wf_enqueue: "wf s \<Longrightarrow> job_ok s j \<Longrightarrow> wf (enqueue j s)"
  by (auto simp: wf_defs job_ok_cong [of "enqueue j s" s] intro: callback_ok_mono)

lemma wf_upd_stub:
  assumes "wf s"
    and "\<forall>k\<in>set (pending (f (stub_of s r))). k < length (events s)"
    and "\<forall>n. waitingSoNotify (f (stub_of s r)) = Some n \<longrightarrow>
           notifier_pull n < length (pulls s) \<and> recipient (pulls s ! notifier_pull n) = r"
  shows "wf (upd_stub r f s)"
  using assms by (auto simp: wf_defs job_ok_cong [of "upd_stub r f s" s] intro: callback_ok_mono)

lemma wf_ensure_stub: "wf s \<Longrightarrow> wf (ensure_stub r s)"
  by (auto simp: wf_defs job_ok_cong [of "ensure_stub r s" s] intro: callback_ok_mono)

lemma wf_new_Event: "wf s \<Longrightarrow> wf (snd (new_Event n a opts s))"
  by (auto simp: wf_defs events_new_Event less_Suc_eq
      intro: callback_ok_mono job_ok_mono [of s "snd (new_Event n a opts s)"])

lemma wf_event_once: "wf s \<Longrightarrow> target l = k \<Longrightarrow> wf (event_once k sig l s)"
  by (auto simp: wf_defs events_event_once job_ok_cong [of "event_once k sig l s" s]
      intro: callback_ok_mono)

lemma wf_setTimeout: "wf s \<Longrightarrow> callback_ok s cb \<Longrightarrow> wf (snd (setTimeout cb d s))"
  by (auto simp: wf_defs nth_append less_Suc_eq job_ok_cong [of "snd (setTimeout cb d s)" s]
      intro: callback_ok_mono)

lemma wf_clearTimeout: "wf s \<Longrightarrow> wf (clearTimeout t s)"
  by (auto simp: wf_defs timers_clearTimeout job_ok_cong [of "clearTimeout t s" s]
      intro: callback_ok_mono)

lemma wf_settle: "wf s \<Longrightarrow> wf (settle k outcome s)"
  by (auto simp: wf_defs events_settle jobs_settle job_ok_cong [of "settle k outcome s" s]
      intro: callback_ok_mono)

lemma wf_pendingD: "wf s \<Longrightarrow> k \<in> set (pending (stub_of s r)) \<Longrightarrow> k < length (events s)"
  by (auto simp: wf_defs)

lemma wf_slotD:
  "wf s \<Longrightarrow> waitingSoNotify (stub_of s r) = Some n \<Longrightarrow>
   notifier_pull n < length (pulls s) \<and> recipient (pulls s ! notifier_pull n) = r"
  by (auto simp: wf_defs)

lemma wf_jobD: "wf s \<Longrightarrow> j \<in> set (jobs s) \<Longrightarrow> job_ok s j"
  by (auto simp: wf_defs)

lemma wf_listenerD:
  "wf s \<Longrightarrow> k < length (events s) \<Longrightarrow> l \<in> set (listeners (events s ! k) sig) \<Longrightarrow> target l = k"
  by (auto simp: wf_defs)

lemma wf_timerD: "wf s \<Longrightarrow> h < length (timers s) \<Longrightarrow> callback_ok s (callback (timers s ! h))"
  by (auto simp: wf_defs)

lemma wf_pullD: "wf s \<Longrightarrow> p < length (pulls s) \<Longrightarrow> then_job_of p (on_fulfilled (pulls s ! p))"
  by (auto simp: wf_defs)

lemma wf_varD:
  "wf s \<Longrightarrow> k < length (events s) \<Longrightarrow> pendingTimer (events s ! k) = Some h \<Longrightarrow>
     h < length (timers s) \<and> callback (timers s ! h) = OnTimeout k ''pending event timed out''"
  "wf s \<Longrightarrow> k < length (events s) \<Longrightarrow> handlingTimer (events s ! k) = Some h \<Longrightarrow>
     h < length (timers s) \<and> callback (timers s ! h) = OnTimeout k ''event handling timed otu''"
  by (auto simp: wf_defs)

lemma wf_upd_stub_slot_None: "wf s \<Longrightarrow> wf (upd_stub r (\<lambda>st. st\<lparr>waitingSoNotify := None\<rparr>) s)"
  by (rule wf_upd_stub) (auto dest: wf_pendingD)

lemma wf_upd_stub_active:
  "wf s \<Longrightarrow> wf (upd_stub r (\<lambda>st. st\<lparr>active := f (active st)\<rparr>) s)"
  by (rule wf_upd_stub) (auto dest: wf_pendingD wf_slotD)

lemma wf_track: "wf s \<Longrightarrow> wf (track r k s)"
  using wf_upd_stub_active [of s r "\<lambda>a. a(k \<mapsto> k)"]
  by (simp add: track_def wf_event_once)

lemma wf_arm_handling:
  assumes "wf s" and "k < length (events s)"
  shows "wf (run_listener v (ArmHandlingTimer k d) s)"
  using assms
  by (auto simp: wf_defs case_prod_beta events_upd_event nth_append less_Suc_eq
      job_ok_cong [of "upd_event k f (snd (setTimeout cb d s))" s for f cb]
      intro: callback_ok_mono)

lemma wf_run_listener:
  assumes "wf s" and "target l < length (events s)"
  shows "wf (run_listener v l s)"
proof (cases l)
  case (ArmHandlingTimer k d)
  then show ?thesis using assms wf_arm_handling by simp
next
  case (ActiveDelete r k)
  then show ?thesis using assms wf_upd_stub_active [of s r "\<lambda>a. a(k := None)"] by simp
qed (use assms in \<open>simp_all add: wf_settle wf_clearTimeout\<close>)

lemma wf_fold_run_listener:
  assumes "wf s" and "\<forall>l\<in>set ls. target l < length (events s)"
  shows "wf (fold (run_listener v) ls s)"
  using assms
proof (induction ls arbitrary: s)
  case Nil
  then show ?case by simp
next
  case (Cons l ls)
  then show ?case by (simp add: wf_run_listener)
qed

lemma wf_clear_listeners:
  "wf s \<Longrightarrow> wf (upd_event k (\<lambda>ev. ev\<lparr>listeners := (listeners ev)(sig := [])\<rparr>) s)"
  by (auto simp: wf_defs events_upd_event
      job_ok_cong [of "upd_event k f s" s for f] intro: callback_ok_mono)

lemma wf_event_emit:
  assumes "wf s" and "k < length (events s)"
  shows "wf (event_emit k sig v s)"
proof -
  have "\<forall>l\<in>set (listeners (events s ! k) sig). target l = k"
    using assms by (simp add: wf_defs)
  then show ?thesis
    unfolding event_emit_def using assms by (intro wf_fold_run_listener wf_clear_listeners) auto
qed

lemma wf_resolve_waiting: "wf s \<Longrightarrow> p < length (pulls s) \<Longrightarrow> wf (resolve_waiting p s)"
  by (auto simp: wf_defs pulls_resolve_waiting jobs_resolve_waiting
      job_ok_cong [of "resolve_waiting p s" s] intro: callback_ok_mono)

lemma wf_notify: "wf s \<Longrightarrow> wf (notify r s)"
proof (cases "waitingSoNotify (stub_of s r)")
  case None
  then show "wf s \<Longrightarrow> wf (notify r s)" by (simp add: notify_def)
next
  case (Some n)
  assume "wf s"
  then have p: "notifier_pull n < length (pulls s)" using Some by (auto simp: wf_defs)
  have "wf (upd_stub r (\<lambda>st. st\<lparr>waitingSoNotify := None\<rparr>) s)"
    using \<open>wf s\<close> by (rule wf_upd_stub_slot_None)
  then show "wf (notify r s)"
    using Some p \<open>wf s\<close> by (cases n) (simp_all add: notify_def wf_resolve_waiting)
qed

lemma wf_new_pull:
  assumes w: "wf s" and f: "then_job_of (length (pulls s)) f"
  shows "wf (snd (new_pull r f src s))"
proof -
  let ?t = "snd (new_pull r f src s)"
  have "wf_listeners ?t" "wf_pending ?t" "wf_vars ?t"
    using w by (simp_all add: wf_defs)
  moreover have "wf_results ?t"
    using w by (auto simp: wf_defs pulls_new_pull less_Suc_eq)
  moreover have "wf_jobs ?t"
    using w by (auto simp: wf_defs intro: job_ok_mono [of s ?t])
  moreover have "wf_timers ?t"
    using w by (auto simp: wf_defs intro: callback_ok_mono [of s ?t])
  moreover have "wf_slots ?t"
    unfolding wf_slots_def
  proof (intro allI impI)
    fix r' n
    assume "waitingSoNotify (stub_of ?t r') = Some n"
    then have "notifier_pull n < length (pulls s) \<and> recipient (pulls s ! notifier_pull n) = r'"
      using wf_slotD [OF w, of r' n] by simp
    then show "notifier_pull n < length (pulls ?t) \<and> recipient (pulls ?t ! notifier_pull n) = r'"
      by (simp add: pulls_new_pull)
  qed
  moreover have "wf_pulls ?t"
    using w f by (auto simp: wf_defs pulls_new_pull less_Suc_eq)
  ultimately show ?thesis by (simp add: wf_def)
qed

lemma wf_upd_pull:
  assumes "wf s" and "\<And>c. recipient (f c) = recipient c" and "\<And>c. on_fulfilled (f c) = on_fulfilled c"
    and "\<And>c. result (f c) = result c"
  shows "wf (upd_pull p f s)"
  using assms
  by (auto simp: wf_defs pulls_upd_pull job_ok_cong [of "upd_pull p f s" s] intro: callback_ok_mono)

lemma wf_upd_pull_result:
  assumes "wf s" and "\<And>k. outcome = Fulfilled k \<Longrightarrow> k < length (events s)"
  shows "wf (upd_pull p (\<lambda>c. c\<lparr>result := outcome\<rparr>) s)"
  using assms
  by (auto simp: wf_defs pulls_upd_pull
      job_ok_cong [of "upd_pull p (\<lambda>c. c\<lparr>result := outcome\<rparr>) s" s] intro: callback_ok_mono)

lemma wf_pending_ConsD:
  "wf s \<Longrightarrow> pending (stub_of s r) = k # rest \<Longrightarrow>
   k < length (events s) \<and> (\<forall>x\<in>set rest. x < length (events s))"
  using wf_pendingD [of s _ r] by simp

lemma wf_push:
  "wf s \<Longrightarrow> k < length (events s) \<Longrightarrow> wf (upd_stub r (\<lambda>st. st\<lparr>pending := pending st @ [k]\<rparr>) s)"
  by (rule wf_upd_stub) (auto dest: wf_pendingD wf_slotD)

lemma wf_shift:
  "wf s \<Longrightarrow> pending (stub_of s r) = k # rest \<Longrightarrow> wf (upd_stub r (\<lambda>st. st\<lparr>pending := rest\<rparr>) s)"
  by (rule wf_upd_stub) (auto dest: wf_pending_ConsD wf_slotD)

lemma wf_install:
  "wf s \<Longrightarrow> notifier_pull n < length (pulls s) \<Longrightarrow> recipient (pulls s ! notifier_pull n) = r \<Longrightarrow>
   wf (upd_stub r (\<lambda>st. st\<lparr>waitingSoNotify := Some n\<rparr>) s)"
  by (rule wf_upd_stub) (auto dest: wf_pendingD)

lemma wf_arm_pending:
  assumes "wf s" and "k < length (events s)"
  shows "wf (upd_event k (\<lambda>ev. ev\<lparr>pendingTimer := Some (length (timers s))\<rparr>)
           (snd (setTimeout (OnTimeout k ''pending event timed out'') d s)))"
  using assms
  by (auto simp: wf_defs events_upd_event nth_append less_Suc_eq
      job_ok_cong [of "upd_event k f (snd (setTimeout cb d s))" s for f cb]
      intro: callback_ok_mono)

lemma wf_upd_event_cleanup: "wf s \<Longrightarrow> wf (upd_event k (\<lambda>ev. ev\<lparr>cleanup := b\<rparr>) s)"
  by (auto simp: wf_defs events_upd_event
      job_ok_cong [of "upd_event k f s" s for f] intro: callback_ok_mono)

lemma promise_executor_fields [simp]:
  "options (promise_executor k sig opts s) = options s"
  "queues (promise_executor k sig opts s) = queues s"
  "pulls (promise_executor k sig opts s) = pulls s"
  "jobs (promise_executor k sig opts s) = jobs s"
  "length (events (promise_executor k sig opts s)) = length (events s)"
  "stub_of (promise_executor k sig opts s) r = stub_of s r"
  by (simp_all add: promise_executor_def Let_def case_prod_beta stub_of_def)

lemma wf_promise_executor:
  assumes "wf s" and "k < length (events s)"
  shows "wf (promise_executor k sig opts s)"
proof -
  define s2 where "s2 = event_once k Failed (Reject k) (event_once k sig (Resolve k) s)"
  have s2: "wf s2" "k < length (events s2)"
    using assms by (simp_all add: s2_def wf_event_once)
  define s3 where "s3 = event_once k Pulled (ClearPendingTimer k)
     (upd_event k (\<lambda>ev. ev\<lparr>pendingTimer := Some (length (timers s2))\<rparr>)
        (snd (setTimeout (OnTimeout k ''pending event timed out'') (the_enat (pendingTimeout opts)) s2)))"
  have s3: "wf s3"
    unfolding s3_def using s2 by (intro wf_event_once wf_arm_pending) simp_all
  have "wf (event_once k Pulled (ArmHandlingTimer k d) s3)"
       "wf (event_once k Pulled (ArmHandlingTimer k d) s2)" for d
    using s2 s3 by (simp_all add: wf_event_once)
  then show ?thesis
    using s2 s3 by (auto simp: promise_executor_def Let_def case_prod_beta s2_def s3_def)
qed

lemma wf_emitWithOptions: "wf s \<Longrightarrow> wf (snd (emitWithOptions recipientId n a ov s))"
  unfolding emitWithOptions_def Let_def case_prod_beta
  by (auto intro!: wf_upd_event_cleanup wf_promise_executor wf_notify wf_push
      wf_new_Event wf_ensure_stub)

lemma wf_emit_v1: "wf s \<Longrightarrow> wf (snd (emit_v1 recipientId n a s))"
  unfolding emit_v1_def Let_def case_prod_beta
  by (auto intro!: wf_event_once wf_notify wf_push wf_new_Event wf_ensure_stub)

lemma wf_pull_gen:
  assumes "wf s" and "then_job_of (length (pulls s)) f" and "notifier_pull n = length (pulls s)"
  shows "wf (enqueue f (snd (new_pull r f (Fulfilled ()) (ensure_stub r s))))"
    and "wf (snd (setTimeout (RejectRace (length (pulls s)) err) t
           (upd_stub r (\<lambda>st. st\<lparr>waitingSoNotify := Some n\<rparr>)
             (snd (new_pull r f Pending (ensure_stub r s))))))"
proof -
  have f: "job_ok (snd (new_pull r f src (ensure_stub r s))) f" for src
    using assms(2) by (cases f) auto
  show "wf (enqueue f (snd (new_pull r f (Fulfilled ()) (ensure_stub r s))))"
    using assms f by (intro wf_enqueue wf_new_pull wf_ensure_stub) auto
  show "wf (snd (setTimeout (RejectRace (length (pulls s)) err) t
           (upd_stub r (\<lambda>st. st\<lparr>waitingSoNotify := Some n\<rparr>)
             (snd (new_pull r f Pending (ensure_stub r s))))))"
    using assms by (intro wf_setTimeout wf_install wf_new_pull wf_ensure_stub)
      (auto simp: pulls_new_pull)
qed

lemma wf_pull: "wf s \<Longrightarrow> wf (snd (pull recipientId t s))"
  using wf_pull_gen [of s "ThenJob (length (pulls s))" "Notifier (length (pulls s))"]
  by (simp add: pull_def Let_def case_prod_beta)

lemma wf_pull_v1: "wf s \<Longrightarrow> wf (snd (pull_v1 recipientId t w s))"
  using wf_pull_gen [of s "ThenJob_v1 (length (pulls s)) w" "Resolver (length (pulls s))"]
  by (simp add: pull_v1_def Let_def case_prod_beta)

lemma wf_pull_then: "wf s \<Longrightarrow> p < length (pulls s) \<Longrightarrow> wf (pull_then p s)"
  unfolding pull_then_def Let_def
  by (auto split: list.splits
      intro!: wf_enqueue wf_event_emit wf_track wf_shift wf_upd_stub_slot_None
      dest: wf_pending_ConsD [OF wf_upd_stub_slot_None])

lemma wf_pull_then_v1: "wf s \<Longrightarrow> p < length (pulls s) \<Longrightarrow> wf (pull_then_v1 p w s)"
  unfolding pull_then_v1_def Let_def
  by (auto split: list.splits
      intro!: wf_enqueue wf_event_emit wf_shift wf_upd_stub_slot_None wf_upd_stub_active
      dest: wf_pending_ConsD [OF wf_upd_stub_slot_None])

lemma wf_pull_catch: "wf s \<Longrightarrow> wf (pull_catch p err s)"
  unfolding pull_catch_def Let_def
  by (intro wf_upd_pull_result wf_upd_stub_slot_None) simp_all

lemma wf_run_job: "wf s \<Longrightarrow> job_ok s j \<Longrightarrow> wf (run_job j s)"
proof (cases j)
  case (RaceFulfil p)
  assume w: "wf s" and "job_ok s j"
  then have p: "p < length (pulls s)" using RaceFulfil by simp
  have "job_ok (upd_pull p f s) (on_fulfilled (pulls s ! p))" for f
    using wf_pullD [OF w p] by (cases "on_fulfilled (pulls s ! p)") (simp_all add: p)
  then show ?thesis using RaceFulfil w by (simp add: wf_enqueue wf_upd_pull)
next
  case (RaceReject p err)
  then show "wf s \<Longrightarrow> job_ok s j \<Longrightarrow> wf (run_job j s)"
    by (simp add: wf_enqueue wf_upd_pull)
next
  case (CatchSkip p k)
  then show "wf s \<Longrightarrow> job_ok s j \<Longrightarrow> wf (run_job j s)"
    using wf_upd_pull_result [of s "Fulfilled k" p] by simp
qed (simp_all add: wf_pull_then wf_pull_then_v1 wf_pull_catch wf_enqueue wf_clearTimeout)

lemma wf_tick: "wf s \<Longrightarrow> wf (tick s)"
proof (cases "jobs s")
  case Nil
  then show "wf s \<Longrightarrow> wf (tick s)" by (simp add: tick_def)
next
  case (Cons j js)
  assume w: "wf s"
  have st: "stub_of (s\<lparr>jobs := js\<rparr>) r = stub_of s r" for r by (simp add: stub_of_def)
  have "wf (s\<lparr>jobs := js\<rparr>)" using w Cons by (auto simp: wf_defs st job_ok_cong [of "s\<lparr>jobs := js\<rparr>" s]
        intro: callback_ok_mono [of s])
  moreover have "job_ok (s\<lparr>jobs := js\<rparr>) j"
    using wf_jobD [OF w, of j] Cons by (simp add: job_ok_cong [of "s\<lparr>jobs := js\<rparr>" s])
  ultimately show "wf (tick s)" using Cons by (simp add: tick_def wf_run_job)
qed

lemma wf_fire: "wf s \<Longrightarrow> wf (fire h s)"
proof (cases "jobs s = [] \<and> h < length (timers s) \<and> status (timers s ! h) = Armed")
  case True
  assume w: "wf s"
  let ?t = "set_status h Fired s"
  have t: "wf ?t"
    using w by (auto simp: wf_defs timers_set_status job_ok_cong [of ?t s]
        intro: callback_ok_mono [of s])
  have "callback_ok ?t (callback (timers s ! h))"
    using wf_timerD [OF w, of h] True by (auto intro: callback_ok_mono [of s])
  then have "wf (run_callback (callback (timers s ! h)) ?t)"
    using t by (cases "callback (timers s ! h)") (simp_all add: wf_settle wf_enqueue)
  then show "wf (fire h s)" using True by (simp add: fire_def)
next
  case False
  then show "wf s \<Longrightarrow> wf (fire h s)" by (auto simp: fire_def)
qed

lemma wf_signal: "wf s \<Longrightarrow> wf (signal k sig v s)"
  by (simp add: signal_def wf_event_emit)

lemma wf_step: "wf s \<Longrightarrow> wf (step a s)"
  by (cases a) (simp_all add: emit_def emitAndWait_def wf_emitWithOptions wf_pull wf_emit_v1
      wf_pull_v1 wf_signal wf_tick wf_fire)

lemma wf_EventPool: "wf (EventPool ov)" "wf EventPool_v1"
  by (simp_all add: wf_defs EventPool_def EventPool_v1_def stub_of_def new_stub_def)

lemma reachable_wf: "reachable s \<Longrightarrow> wf s"
  by (induction rule: reachable.induct) (simp_all add: wf_EventPool wf_step)

lemma reachable_run: "reachable s \<Longrightarrow> reachable (run acts s)"
  unfolding run_def by (induction acts arbitrary: s) (simp_all add: reachable.step)

lemma drain_empty: "jobs (drain s) = []"
  by (induction s rule: drain.induct) (simp add: drain.simps)

lemma reachable_tick: "reachable s \<Longrightarrow> reachable (tick s)"
  using reachable.step [of s Tick] by simp

lemma reachable_drain: "reachable s \<Longrightarrow> reachable (drain s)"
  by (induction s rule: drain.induct) (simp add: drain.simps reachable_tick)

section \<open>Invalid recipient ids\<close>

text \<open>
  C3, as the code has it. For a recipient id that is missing, empty or not a string,
  \<open>emitWithOptions\<close>, \<open>emit\<close>, \<open>emitAndWait\<close> and \<open>pull\<close> of the newer revision return a
  promise that is already rejected with the \<open>TypeError\<close> and throw nothing, while \<open>emit\<close>
  and \<open>pull\<close> of the older revision throw the \<open>TypeError\<close>; in both revisions the state,
  and with it the mapping \<open>queues\<close>, is left as it was.
\<close>

theorem invalid_recipient_rejected_or_thrown:
  "invalid_recipient recipientId \<Longrightarrow>
     emitWithOptions recipientId n a ov s = (RejectedPromise (TypeError ''invalid recipient ID''), s)
   \<and> emit recipientId n a s = (RejectedPromise (TypeError ''invalid recipient ID''), s)
   \<and> emitAndWait recipientId n a s = (RejectedPromise (TypeError ''invalid recipient ID''), s)
   \<and> pull recipientId t s = (RejectedPromise (TypeError ''invalid recipient ID''), s)
   \<and> emit_v1 recipientId n a s = (Throws (TypeError ''invalid recipient ID''), s)
   \<and> pull_v1 recipientId t w s = (Throws (TypeError ''invalid recipient ID''), s)"
  by (simp add: emit_def emitAndWait_def emitWithOptions_def pull_def emit_v1_def pull_v1_def)

theorem invalid_recipient_witness:
  "invalid_recipient (Num 7)
   \<and> emitWithOptions (Num 7) ''test'' [] no_overrides one_pending
       = (RejectedPromise (TypeError ''invalid recipient ID''), one_pending)
   \<and> emit (Num 7) ''test'' [] one_pending
       = (RejectedPromise (TypeError ''invalid recipient ID''), one_pending)
   \<and> emitAndWait (Num 7) ''test'' [] one_pending
       = (RejectedPromise (TypeError ''invalid recipient ID''), one_pending)
   \<and> pull (Num 7) 30000 one_pending
       = (RejectedPromise (TypeError ''invalid recipient ID''), one_pending)
   \<and> emit_v1 (Num 7) ''test'' [] one_pending
       = (Throws (TypeError ''invalid recipient ID''), one_pending)
   \<and> pull_v1 (Num 7) 30000 False one_pending
       = (Throws (TypeError ''invalid recipient ID''), one_pending)"
proof -
  have inv: "invalid_recipient (Num 7)" by (simp add: invalid_recipient_def)
  show ?thesis
    using inv invalid_recipient_rejected_or_thrown
      [OF inv, of "''test''" "[]" no_overrides one_pending 30000 False]
    by simp
qed

text \<open>
  C3 as stated fails on the older revision: \<open>emit\<close> of \<^verbatim>\<open>src/lib/pool.js\<close> called
  without a recipient id throws.
\<close>

theorem invalid_recipient_thrown_v1:
  "fst (emit_v1 Undefined ''test'' [] EventPool_v1) = Throws (TypeError ''invalid recipient ID'')"
  by (simp add: emit_v1_def invalid_recipient_def)

section \<open>Capacity\<close>

text \<open>
  C2, as the code has it, on a pool whose \<open>hasOwnProperty\<close> is not shadowed. The bound that
  \<open>emitWithOptions\<close> checks is the one of the options of the pool. An emit call for a valid
  recipient whose pending queue (for \<^verbatim>\<open>"__proto__"\<close>: the empty queue of its new stub) holds at
  least that many records returns a promise rejected with the error of code \<open>ENOMEM\<close>,
  makes no record, and leaves the pending queue of the recipient and of every other one
  as it was (the stub of the recipient is made if it was missing). For \<open>emit\<close> and
  \<open>emitAndWait\<close> the bound of the pool is the bound of the effective options.
\<close>

theorem emit_beyond_capacity_rejected:
  "\<not> invalid_recipient recipientId \<Longrightarrow> \<not> shadowed s \<Longrightarrow>
   enat (length (pending (stub_of s (key_of recipientId)))) \<ge> maxPendingEvents (options s) \<Longrightarrow>
     emitWithOptions recipientId n a ov s
       = (RejectedPromise (ENOMEM (''too many pending events for recipient '' @ key_of recipientId)),
          ensure_stub (key_of recipientId) s)
   \<and> emit recipientId n a s
       = (RejectedPromise (ENOMEM (''too many pending events for recipient '' @ key_of recipientId)),
          ensure_stub (key_of recipientId) s)
   \<and> emitAndWait recipientId n a s
       = (RejectedPromise (ENOMEM (''too many pending events for recipient '' @ key_of recipientId)),
          ensure_stub (key_of recipientId) s)
   \<and> events (ensure_stub (key_of recipientId) s) = events s
   \<and> (\<forall>r. pending (stub_of (ensure_stub (key_of recipientId) s) r) = pending (stub_of s r))
   \<and> maxPendingEvents (assign (options s) no_overrides) = maxPendingEvents (options s)
   \<and> maxPendingEvents (assign (options s) (no_overrides\<lparr>with_waitForHandlers := Some True\<rparr>))
       = maxPendingEvents (options s)"
  by (simp add: emit_def emitAndWait_def emitWithOptions_def assign_def no_overrides_def Let_def)

lemma full_pool_pending:
  "pending (stub_of full_pool ''r'') = [0]" "maxPendingEvents (options full_pool) = 1"
  by (simp_all add: full_pool_def tight_def model_defs one_enat_def)

theorem emit_beyond_capacity_witness:
  "\<not> invalid_recipient (Str ''r'') \<and> \<not> shadowed full_pool
   \<and> enat (length (pending (stub_of full_pool ''r''))) \<ge> maxPendingEvents (options full_pool)
   \<and> emit (Str ''r'') ''b'' [] full_pool
       = (RejectedPromise (ENOMEM ''too many pending events for recipient r''), full_pool)
   \<and> length (pending (stub_of (snd (emit (Str ''r'') ''b'' [] full_pool)) ''r'')) = 1"
proof -
  have v: "\<not> invalid_recipient (Str ''r'')" by (simp add: invalid_recipient_def)
  have c: "enat (length (pending (stub_of full_pool ''r''))) \<ge> maxPendingEvents (options full_pool)"
    by (simp add: full_pool_pending one_enat_def)
  have e: "ensure_stub ''r'' full_pool = full_pool"
    by (simp add: full_pool_def tight_def model_defs)
  have h: "\<not> shadowed full_pool"
    by (simp add: full_pool_def tight_def model_defs)
  show ?thesis
    using v c h emit_beyond_capacity_rejected [OF v h, of "''b''" "[]" no_overrides]
    by (simp add: e full_pool_pending)
qed

text \<open>
  C2 as stated fails where the options of the call lower the bound: with one record
  pending and \<^verbatim>\<open>{ maxPendingEvents: 1 }\<close> passed to \<open>emitWithOptions\<close> on a pool with the
  default bound of 100, the queue holds as many records as the effective options allow,
  and yet the call makes a second record and appends it.
\<close>

theorem emit_override_not_consulted:
  "enat (length (pending (stub_of one_pending ''r'')))
     \<ge> maxPendingEvents (assign (options one_pending) tight)
   \<and> fst (emitWithOptions (Str ''r'') ''b'' [] tight one_pending) = EmitPromise 1
   \<and> pending (stub_of (snd (emitWithOptions (Str ''r'') ''b'' [] tight one_pending)) ''r'') = [0, 1]"
  by (simp add: one_pending_def tight_def model_defs one_enat_def numeral_eq_enat)

section \<open>A suspended pull stays suspended until an emit for its recipient or its timer\<close>

lemma race_timers_same_refl [simp]: "race_timers_same s s"
  by (simp add: race_timers_same_def)

lemma race_timers_same_trans:
  assumes st: "race_timers_same s t" and tu: "race_timers_same t u"
  shows "race_timers_same s u"
  unfolding race_timers_same_def
proof (intro conjI allI impI)
  show "length (timers s) \<le> length (timers u)" "length (pulls s) \<le> length (pulls u)"
    using st tu by (simp_all add: race_timers_same_def)
next
  fix h assume "h < length (timers s)"
  then show "callback (timers u ! h) = callback (timers s ! h)"
    using st tu by (simp add: race_timers_same_def)
next
  fix h q e assume "h < length (timers s)" "callback (timers s ! h) = RejectRace q e"
  then show "status (timers u ! h) = status (timers s ! h)"
    using st tu by (simp add: race_timers_same_def)
next
  fix h q e assume u: "h < length (timers u)" "callback (timers u ! h) = RejectRace q e"
  show "h < length (timers s) \<or> length (pulls s) \<le> q"
  proof (cases "h < length (timers t)")
    case True
    then have "callback (timers t ! h) = RejectRace q e"
      using tu u by (simp add: race_timers_same_def)
    then show ?thesis using st True by (simp add: race_timers_same_def)
  next
    case False
    then have "length (pulls t) \<le> q" using tu u by (auto simp: race_timers_same_def)
    moreover have "length (pulls s) \<le> length (pulls t)" using st by (simp add: race_timers_same_def)
    ultimately show ?thesis by simp
  qed
qed

lemma race_timers_same_eq:
  "timers t = timers s \<Longrightarrow> length (pulls s) \<le> length (pulls t) \<Longrightarrow> race_timers_same s t"
  by (simp add: race_timers_same_def)

lemma race_timers_same_setTimeout:
  "race_timers_same s (snd (setTimeout (OnTimeout k m) d s))"
  by (auto simp: race_timers_same_def nth_append less_Suc_eq)

lemma race_timers_same_clearTimeout:
  assumes "\<forall>h. t = Some h \<longrightarrow> h < length (timers s) \<longrightarrow> (\<exists>k m. callback (timers s ! h) = OnTimeout k m)"
  shows "race_timers_same s (clearTimeout t s)"
  using assms by (auto simp: race_timers_same_def timers_clearTimeout)

lemma race_timers_same_run_listener:
  assumes "wf s" and "target l < length (events s)"
  shows "race_timers_same s (run_listener v l s)"
proof (cases l)
  case (ClearPendingTimer k)
  then show ?thesis using assms wf_varD(1) [of s k]
    by (auto intro!: race_timers_same_clearTimeout)
next
  case (ArmHandlingTimer k d)
  then show ?thesis
    using race_timers_same_setTimeout [of s k "''event handling timed otu''" d]
    by (simp add: case_prod_beta race_timers_same_def)
qed (simp_all add: race_timers_same_eq)

lemma race_timers_same_fold:
  assumes "wf s" and "\<forall>l\<in>set ls. target l < length (events s)"
  shows "race_timers_same s (fold (run_listener v) ls s)"
  using assms
proof (induction ls arbitrary: s)
  case Nil
  then show ?case by simp
next
  case (Cons l ls)
  have "race_timers_same s (run_listener v l s)"
    using Cons.prems by (simp add: race_timers_same_run_listener)
  moreover have "race_timers_same (run_listener v l s) (fold (run_listener v) ls (run_listener v l s))"
    using Cons.prems by (intro Cons.IH) (simp_all add: wf_run_listener)
  ultimately show ?case by (auto intro: race_timers_same_trans)
qed

lemma race_timers_same_event_emit:
  assumes "wf s" and "k < length (events s)"
  shows "race_timers_same s (event_emit k sig v s)"
proof -
  let ?s = "upd_event k (\<lambda>ev. ev\<lparr>listeners := (listeners ev)(sig := [])\<rparr>) s"
  have "\<forall>l\<in>set (listeners (events s ! k) sig). target l = k"
    using assms wf_listenerD by blast
  then have "race_timers_same ?s (fold (run_listener v) (listeners (events s ! k) sig) ?s)"
    using assms by (intro race_timers_same_fold wf_clear_listeners) auto
  moreover have "race_timers_same s ?s" by (simp add: race_timers_same_eq)
  ultimately show ?thesis unfolding event_emit_def by (rule race_timers_same_trans [rotated])
qed

lemma stub_run_listener [simp]:
  "pending (stub_of (run_listener v l s) r) = pending (stub_of s r)"
  "waitingSoNotify (stub_of (run_listener v l s) r) = waitingSoNotify (stub_of s r)"
  by (cases l; simp add: case_prod_beta)+

lemma stub_fold_run_listener [simp]:
  "pending (stub_of (fold (run_listener v) ls s) r) = pending (stub_of s r)"
  "waitingSoNotify (stub_of (fold (run_listener v) ls s) r) = waitingSoNotify (stub_of s r)"
  by (induction ls arbitrary: s; simp)+

lemma stub_event_emit [simp]:
  "pending (stub_of (event_emit k sig v s) r) = pending (stub_of s r)"
  "waitingSoNotify (stub_of (event_emit k sig v s) r) = waitingSoNotify (stub_of s r)"
  by (simp_all add: event_emit_def)

lemma jobs_run_listener:
  "\<exists>js. jobs (run_listener v l s) = jobs s @ js \<and> (\<forall>j\<in>set js. \<exists>k. j = CleanupCatch k)"
  by (cases l) (auto simp: jobs_settle case_prod_beta)

lemma jobs_fold_run_listener:
  "\<exists>js. jobs (fold (run_listener v) ls s) = jobs s @ js \<and> (\<forall>j\<in>set js. \<exists>k. j = CleanupCatch k)"
proof (induction ls arbitrary: s)
  case Nil
  then show ?case by simp
next
  case (Cons l ls)
  obtain js1 where 1: "jobs (run_listener v l s) = jobs s @ js1" "\<forall>j\<in>set js1. \<exists>k. j = CleanupCatch k"
    using jobs_run_listener by blast
  obtain js2 where 2: "jobs (fold (run_listener v) ls (run_listener v l s)) = jobs (run_listener v l s) @ js2"
    "\<forall>j\<in>set js2. \<exists>k. j = CleanupCatch k"
    using Cons.IH by blast
  show ?case using 1 2 by (intro exI [of _ "js1 @ js2"]) auto
qed

lemma jobs_event_emit:
  "\<exists>js. jobs (event_emit k sig v s) = jobs s @ js \<and> (\<forall>j\<in>set js. \<exists>k. j = CleanupCatch k)"
  using jobs_fold_run_listener [of v _ "upd_event k (\<lambda>ev. ev\<lparr>listeners := (listeners ev)(sig := [])\<rparr>) s"]
  by (simp add: event_emit_def)

lemma waiting_transfer:
  assumes w: "waiting p h err r s"
    and tm: "race_timers_same s t"
    and pl: "pulls t ! p = pulls s ! p"
    and jb: "\<forall>j\<in>set (jobs t). j \<in> set (jobs s) \<or> job_pull j \<noteq> Some p"
    and pd: "pending (stub_of t r) = pending (stub_of s r)"
  shows "waiting p h err r t"
proof -
  have ws: "p < length (pulls s)" "recipient (pulls s ! p) = r" "race (pulls s ! p) = Pending"
    "result (pulls s ! p) = Pending" "h < length (timers s)"
    "callback (timers s ! h) = RejectRace p err" "status (timers s ! h) = Armed"
    "pending (stub_of s r) = []"
    using w by (simp_all add: waiting_def)
  have wj: "\<And>j. j \<in> set (jobs s) \<Longrightarrow> job_pull j \<noteq> Some p"
    using w by (simp add: waiting_def)
  have wo: "\<And>h' e. h' < length (timers s) \<Longrightarrow> callback (timers s ! h') = RejectRace p e \<Longrightarrow> h' = h"
    using w by (simp add: waiting_def)
  have t1: "length (timers s) \<le> length (timers t)" "length (pulls s) \<le> length (pulls t)"
    and t2: "\<And>i. i < length (timers s) \<Longrightarrow> callback (timers t ! i) = callback (timers s ! i)"
    and t3: "\<And>i q e. i < length (timers s) \<Longrightarrow> callback (timers s ! i) = RejectRace q e \<Longrightarrow>
               status (timers t ! i) = status (timers s ! i)"
    and t4: "\<And>i q e. i < length (timers t) \<Longrightarrow> callback (timers t ! i) = RejectRace q e \<Longrightarrow>
               i < length (timers s) \<or> length (pulls s) \<le> q"
    using tm unfolding race_timers_same_def by blast+
  have a: "p < length (pulls t)" "h < length (timers t)" using ws t1 by simp_all
  have b: "callback (timers t ! h) = RejectRace p err" using t2 [OF ws(5)] ws(6) by simp
  have c: "status (timers t ! h) = Armed" using t3 [OF ws(5) ws(6)] ws(7) by simp
  have d: "job_pull j \<noteq> Some p" if "j \<in> set (jobs t)" for j
    using jb that wj by blast
  have e: "h' = h" if "h' < length (timers t)" "callback (timers t ! h') = RejectRace p e" for h' e
  proof -
    have 1: "h' < length (timers s)" using t4 [OF that] ws(1) by simp
    then have "callback (timers s ! h') = RejectRace p e" using t2 [of h'] that(2) by simp
    then show ?thesis using 1 by (rule wo [rotated])
  qed
  show ?thesis
    unfolding waiting_def
  proof (intro conjI ballI allI impI)
    show "p < length (pulls t)" "h < length (timers t)" by (rule a)+
    show "recipient (pulls t ! p) = r" "race (pulls t ! p) = Pending" "result (pulls t ! p) = Pending"
      using pl ws by simp_all
    show "callback (timers t ! h) = RejectRace p err" by (rule b)
    show "status (timers t ! h) = Armed" by (rule c)
    show "pending (stub_of t r) = []" using pd ws by simp
    show "job_pull j \<noteq> Some p" if "j \<in> set (jobs t)" for j using that by (rule d)
    show "h' = h" if "h' < length (timers t)" "callback (timers t ! h') = RejectRace p e" for h' e
      using that by (rule e)
  qed
qed

lemma valid_recipient_Str: "\<not> invalid_recipient v \<Longrightarrow> v = Str (key_of v)"
  by (cases v) (simp_all add: invalid_recipient_def)

lemma race_timers_same_promise_executor:
  "race_timers_same s (promise_executor k sig opts s)"
  by (auto simp: promise_executor_def Let_def case_prod_beta race_timers_same_def
      events_upd_event nth_append less_Suc_eq)

lemma race_timers_same_congL:
  "timers s' = timers s \<Longrightarrow> length (pulls s') = length (pulls s) \<Longrightarrow>
   race_timers_same s' t \<Longrightarrow> race_timers_same s t"
  by (simp add: race_timers_same_def)

lemma race_timers_same_congR:
  "timers t' = timers t \<Longrightarrow> length (pulls t') = length (pulls t) \<Longrightarrow>
   race_timers_same s t \<Longrightarrow> race_timers_same s t'"
  by (simp add: race_timers_same_def)

lemma race_timers_same_emitWithOptions:
  "race_timers_same s (snd (emitWithOptions recipientId n a ov s))"
proof -
  have "race_timers_same s (upd_event k f (promise_executor k sig opts t))"
    if "timers t = timers s" "length (pulls t) = length (pulls s)" for k sig opts t f
    using race_timers_same_promise_executor [of t k sig opts] that
    by (auto intro: race_timers_same_congL race_timers_same_congR)
  then show ?thesis
    by (simp add: emitWithOptions_def Let_def case_prod_beta race_timers_same_eq)
qed

lemma race_timers_same_emit_v1:
  "race_timers_same s (snd (emit_v1 recipientId n a s))"
  by (simp add: emit_v1_def Let_def case_prod_beta race_timers_same_eq)

lemma set_jobs_fields [simp]:
  "options (s\<lparr>jobs := js\<rparr>) = options s" "stub_of (s\<lparr>jobs := js\<rparr>) r = stub_of s r"
  by (simp_all add: stub_of_def)

lemma notify_keeps_pull:
  assumes "wf s" and "recipient (pulls s ! p) \<noteq> r"
  shows "pulls (notify r s) ! p = pulls s ! p"
proof (cases "waitingSoNotify (stub_of s r)")
  case None
  then show ?thesis by (simp add: pulls_notify)
next
  case (Some n)
  then have "recipient (pulls s ! notifier_pull n) = r" using assms(1) wf_slotD by blast
  then have "notifier_pull n \<noteq> p" using assms(2) by auto
  then show ?thesis using Some by (simp add: pulls_notify)
qed

lemma notify_jobs:
  assumes "wf s" and "j \<in> set (jobs (notify r s))"
  shows "j \<in> set (jobs s) \<or> (\<exists>q<length (pulls s). j = RaceFulfil q \<and> recipient (pulls s ! q) = r)"
proof (cases "waitingSoNotify (stub_of s r)")
  case None
  then show ?thesis using assms by (simp add: jobs_notify)
next
  case (Some n)
  then have "notifier_pull n < length (pulls s) \<and> recipient (pulls s ! notifier_pull n) = r"
    using assms(1) wf_slotD by blast
  then show ?thesis using Some assms(2) by (auto simp: jobs_notify split: if_splits)
qed

lemma wf_emit_prefix:
  "wf s \<Longrightarrow> wf (upd_stub r (\<lambda>st. st\<lparr>pending := pending st @ [length (events s)]\<rparr>)
     (snd (new_Event n a opts (ensure_stub r s))))"
  by (intro wf_push wf_new_Event wf_ensure_stub) simp_all

lemma emitWithOptions_keeps_pull:
  assumes "wf s" and "recipient (pulls s ! p) \<noteq> key_of recipientId"
  shows "pulls (snd (emitWithOptions recipientId n a ov s)) ! p = pulls s ! p"
proof -
  let ?r = "key_of recipientId"
  have "pulls (notify ?r t) ! p = pulls s ! p"
    if "wf t" "pulls t = pulls s" for t
    using notify_keeps_pull [OF that(1), of p ?r] assms(2) that(2) by simp
  then show ?thesis
    using assms(1)
    by (simp add: emitWithOptions_def Let_def case_prod_beta events_upd_event
        wf_push wf_new_Event wf_ensure_stub)
qed

lemma emitWithOptions_jobs:
  assumes "wf s" and "j \<in> set (jobs (snd (emitWithOptions recipientId n a ov s)))"
  shows "j \<in> set (jobs s)
     \<or> (\<exists>q<length (pulls s). j = RaceFulfil q \<and> recipient (pulls s ! q) = key_of recipientId)"
proof -
  let ?r = "key_of recipientId"
  let ?t = "upd_stub ?r (\<lambda>st. st\<lparr>pending := pending st @ [length (events s)]\<rparr>)
     (snd (new_Event n a (Some (assign (options s) ov)) (ensure_stub ?r s)))"
  have t: "wf ?t" using assms(1) by (rule wf_emit_prefix)
  have "j \<in> set (jobs s) \<or> (\<exists>q<length (pulls s). j = RaceFulfil q \<and> recipient (pulls s ! q) = ?r)"
    if "j \<in> set (jobs (notify ?r ?t))"
    using notify_jobs [OF t that] by simp
  then show ?thesis
    using assms(2)
    by (simp add: emitWithOptions_def Let_def case_prod_beta split: if_splits)
qed

lemma emitWithOptions_other_stub:
  "r \<noteq> key_of recipientId \<Longrightarrow> stub_of (snd (emitWithOptions recipientId n a ov s)) r = stub_of s r"
  by (simp add: emitWithOptions_def Let_def case_prod_beta stub_of_notify)

lemma emit_v1_keeps_pull:
  assumes "wf s" and "recipient (pulls s ! p) \<noteq> key_of recipientId"
  shows "pulls (snd (emit_v1 recipientId n a s)) ! p = pulls s ! p"
proof -
  let ?r = "key_of recipientId"
  have "pulls (notify ?r t) ! p = pulls s ! p"
    if "wf t" "pulls t = pulls s" for t
    using notify_keeps_pull [OF that(1), of p ?r] assms(2) that(2) by simp
  then show ?thesis
    using assms(1)
    by (simp add: emit_v1_def Let_def case_prod_beta wf_push wf_new_Event wf_ensure_stub)
qed

lemma emit_v1_jobs:
  assumes "wf s" and "j \<in> set (jobs (snd (emit_v1 recipientId n a s)))"
  shows "j \<in> set (jobs s)
     \<or> (\<exists>q<length (pulls s). j = RaceFulfil q \<and> recipient (pulls s ! q) = key_of recipientId)"
proof -
  let ?r = "key_of recipientId"
  let ?t = "upd_stub ?r (\<lambda>st. st\<lparr>pending := pending st @ [length (events s)]\<rparr>)
     (snd (new_Event n a None (ensure_stub ?r s)))"
  have t: "wf ?t" using assms(1) by (rule wf_emit_prefix)
  have "j \<in> set (jobs s) \<or> (\<exists>q<length (pulls s). j = RaceFulfil q \<and> recipient (pulls s ! q) = ?r)"
    if "j \<in> set (jobs (notify ?r ?t))"
    using notify_jobs [OF t that] by simp
  then show ?thesis
    using assms(2)
    by (simp add: emit_v1_def Let_def case_prod_beta split: if_splits)
qed

lemma emit_v1_other_stub:
  "r \<noteq> key_of recipientId \<Longrightarrow> stub_of (snd (emit_v1 recipientId n a s)) r = stub_of s r"
  by (simp add: emit_v1_def Let_def case_prod_beta stub_of_notify)

lemma waiting_emitWithOptions:
  assumes w: "wf s" and i: "waiting p h err r s" and r: "recipientId \<noteq> Str r"
  shows "waiting p h err r (snd (emitWithOptions recipientId n a ov s))"
proof (cases "invalid_recipient recipientId")
  case True
  then show ?thesis using i by (simp add: emitWithOptions_def)
next
  case False
  then have k: "r \<noteq> key_of recipientId" using r valid_recipient_Str by metis
  have p: "recipient (pulls s ! p) = r" using i by (simp add: waiting_def)
  show ?thesis
  proof (rule waiting_transfer [OF i race_timers_same_emitWithOptions])
    show "pulls (snd (emitWithOptions recipientId n a ov s)) ! p = pulls s ! p"
      using w k p by (simp add: emitWithOptions_keeps_pull)
    show "\<forall>j\<in>set (jobs (snd (emitWithOptions recipientId n a ov s))). j \<in> set (jobs s) \<or> job_pull j \<noteq> Some p"
      using emitWithOptions_jobs [OF w] k p by fastforce
    show "pending (stub_of (snd (emitWithOptions recipientId n a ov s)) r) = pending (stub_of s r)"
      using k by (simp add: emitWithOptions_other_stub)
  qed
qed

lemma waiting_emit_v1:
  assumes w: "wf s" and i: "waiting p h err r s" and r: "recipientId \<noteq> Str r"
  shows "waiting p h err r (snd (emit_v1 recipientId n a s))"
proof (cases "invalid_recipient recipientId")
  case True
  then show ?thesis using i by (simp add: emit_v1_def)
next
  case False
  then have k: "r \<noteq> key_of recipientId" using r valid_recipient_Str by metis
  have p: "recipient (pulls s ! p) = r" using i by (simp add: waiting_def)
  show ?thesis
  proof (rule waiting_transfer [OF i race_timers_same_emit_v1])
    show "pulls (snd (emit_v1 recipientId n a s)) ! p = pulls s ! p"
      using w k p by (simp add: emit_v1_keeps_pull)
    show "\<forall>j\<in>set (jobs (snd (emit_v1 recipientId n a s))). j \<in> set (jobs s) \<or> job_pull j \<noteq> Some p"
      using emit_v1_jobs [OF w] k p by fastforce
    show "pending (stub_of (snd (emit_v1 recipientId n a s)) r) = pending (stub_of s r)"
      using k by (simp add: emit_v1_other_stub)
  qed
qed

lemma waiting_direct:
  assumes w: "waiting p h err r s"
    and t1: "length (timers s) \<le> length (timers t)" "length (pulls s) \<le> length (pulls t)"
    and t2: "\<And>i. i < length (timers s) \<Longrightarrow> callback (timers t ! i) = callback (timers s ! i)"
    and t3: "status (timers t ! h) = status (timers s ! h)"
    and t4: "\<And>i e. i < length (timers t) \<Longrightarrow> callback (timers t ! i) = RejectRace p e \<Longrightarrow>
               i < length (timers s)"
    and pl: "pulls t ! p = pulls s ! p"
    and jb: "\<forall>j\<in>set (jobs t). j \<in> set (jobs s) \<or> job_pull j \<noteq> Some p"
    and pd: "pending (stub_of t r) = pending (stub_of s r)"
  shows "waiting p h err r t"
proof -
  have ws: "p < length (pulls s)" "recipient (pulls s ! p) = r" "race (pulls s ! p) = Pending"
    "result (pulls s ! p) = Pending" "h < length (timers s)"
    "callback (timers s ! h) = RejectRace p err" "status (timers s ! h) = Armed"
    "pending (stub_of s r) = []"
    using w by (simp_all add: waiting_def)
  have wj: "\<And>j. j \<in> set (jobs s) \<Longrightarrow> job_pull j \<noteq> Some p"
    using w by (simp add: waiting_def)
  have wo: "\<And>h' e. h' < length (timers s) \<Longrightarrow> callback (timers s ! h') = RejectRace p e \<Longrightarrow> h' = h"
    using w by (simp add: waiting_def)
  have e: "h' = h" if "h' < length (timers t)" "callback (timers t ! h') = RejectRace p e" for h' e
  proof -
    have 1: "h' < length (timers s)" using t4 [OF that] .
    then have "callback (timers s ! h') = RejectRace p e" using t2 [of h'] that(2) by simp
    then show ?thesis using 1 by (rule wo [rotated])
  qed
  show ?thesis
    unfolding waiting_def
  proof (intro conjI ballI allI impI)
    show "p < length (pulls t)" "h < length (timers t)" using ws t1 by simp_all
    show "recipient (pulls t ! p) = r" "race (pulls t ! p) = Pending" "result (pulls t ! p) = Pending"
      using pl ws by simp_all
    show "callback (timers t ! h) = RejectRace p err" using t2 [OF ws(5)] ws(6) by simp
    show "status (timers t ! h) = Armed" using t3 ws(7) by simp
    show "pending (stub_of t r) = []" using pd ws by simp
    show "job_pull j \<noteq> Some p" if "j \<in> set (jobs t)" for j using jb that wj by blast
    show "h' = h" if "h' < length (timers t)" "callback (timers t ! h') = RejectRace p e" for h' e
      using that by (rule e)
  qed
qed

lemma waiting_pull_gen:
  assumes i: "waiting p h err r s"
    and f: "job_pull f = Some (length (pulls s))"
  shows "waiting p h err r (enqueue f (snd (new_pull r' f (Fulfilled ()) (ensure_stub r' s))))"
    and "pending (stub_of s r') = [] \<Longrightarrow>
         waiting p h err r (snd (setTimeout (RejectRace (length (pulls s)) e) d
           (upd_stub r' (\<lambda>st. st\<lparr>waitingSoNotify := Some n\<rparr>)
             (snd (new_pull r' f Pending (ensure_stub r' s))))))"
proof -
  have p: "p < length (pulls s)" "h < length (timers s)" using i by (simp_all add: waiting_def)
  show "waiting p h err r (enqueue f (snd (new_pull r' f (Fulfilled ()) (ensure_stub r' s))))"
    using p f by (intro waiting_direct [OF i]) (auto simp: pulls_new_pull)
  show "waiting p h err r (snd (setTimeout (RejectRace (length (pulls s)) e) d
           (upd_stub r' (\<lambda>st. st\<lparr>waitingSoNotify := Some n\<rparr>)
             (snd (new_pull r' f Pending (ensure_stub r' s))))))"
    using p f by (intro waiting_direct [OF i]) (auto simp: pulls_new_pull nth_append less_Suc_eq)
qed

lemma waiting_pull: "waiting p h err r s \<Longrightarrow> waiting p h err r (snd (pull recipientId t s))"
  using waiting_pull_gen [of p h err r s "ThenJob (length (pulls s))"]
  by (simp add: pull_def Let_def case_prod_beta)

lemma waiting_pull_v1: "waiting p h err r s \<Longrightarrow> waiting p h err r (snd (pull_v1 recipientId t w s))"
  using waiting_pull_gen [of p h err r s "ThenJob_v1 (length (pulls s)) w"]
  by (simp add: pull_v1_def Let_def case_prod_beta)

lemma waiting_event_emit:
  assumes "wf s" and "waiting p h err r s" and "k < length (events s)"
  shows "waiting p h err r (event_emit k sig v s)"
proof (rule waiting_transfer [OF assms(2) race_timers_same_event_emit [OF assms(1,3)]])
  obtain js where js: "jobs (event_emit k sig v s) = jobs s @ js" "\<forall>j\<in>set js. \<exists>k. j = CleanupCatch k"
    using jobs_event_emit by blast
  have "job_pull j \<noteq> Some p" if "j \<in> set js" for j
    using js(2) that by fastforce
  then show "\<forall>j\<in>set (jobs (event_emit k sig v s)). j \<in> set (jobs s) \<or> job_pull j \<noteq> Some p"
    using js(1) by auto
qed simp_all

lemma waiting_signal: "wf s \<Longrightarrow> waiting p h err r s \<Longrightarrow> waiting p h err r (signal k sig v s)"
  by (simp add: signal_def waiting_event_emit)

lemma waiting_stub_update:
  assumes "waiting p h err r s" and "r' = r \<Longrightarrow> pending (f (stub_of s r)) = []"
  shows "waiting p h err r (upd_stub r' f s)"
proof (rule waiting_direct [OF assms(1)])
  have "pending (stub_of s r) = []" using assms(1) by (simp add: waiting_def)
  then show "pending (stub_of (upd_stub r' f s) r) = pending (stub_of s r)"
    using assms(2) by (cases "r' = r") simp_all
qed simp_all

lemma waiting_enqueue:
  "waiting p h err r s \<Longrightarrow> job_pull j \<noteq> Some p \<Longrightarrow> waiting p h err r (enqueue j s)"
  by (rule waiting_direct) auto

lemma waiting_track: "waiting p h err r s \<Longrightarrow> waiting p h err r (track r' k s)"
  by (rule waiting_direct) auto

lemma waiting_upd_pull:
  "waiting p h err r s \<Longrightarrow> q \<noteq> p \<Longrightarrow> waiting p h err r (upd_pull q f s)"
  by (rule waiting_direct) (auto simp: pulls_upd_pull)

lemma pull_then_Nil:
  "pending (stub_of s (recipient (pulls s ! q))) = [] \<Longrightarrow>
   pull_then q s = enqueue (CatchJob q (TypeError ''Cannot read property of undefined''))
     (upd_stub (recipient (pulls s ! q)) (\<lambda>st. st\<lparr>waitingSoNotify := None\<rparr>) s)"
  by (simp add: pull_then_def Let_def)

lemma pull_then_Cons:
  "pending (stub_of s (recipient (pulls s ! q))) = k # rest \<Longrightarrow>
   pull_then q s = enqueue (CatchSkip q k) (event_emit k Pulled Undefined
     (track (recipient (pulls s ! q)) k
       (upd_stub (recipient (pulls s ! q)) (\<lambda>st. st\<lparr>pending := rest\<rparr>)
         (upd_stub (recipient (pulls s ! q)) (\<lambda>st. st\<lparr>waitingSoNotify := None\<rparr>) s))))"
  by (cases "recipient (pulls s ! q) = proto") (simp_all add: pull_then_def Let_def)

lemma pull_then_v1_Nil:
  "pending (stub_of s (recipient (pulls s ! q))) = [] \<Longrightarrow>
   pull_then_v1 q b s = enqueue (CatchJob q (TypeError ''Cannot read property of undefined''))
     (upd_stub (recipient (pulls s ! q)) (\<lambda>st. st\<lparr>waitingSoNotify := None\<rparr>) s)"
  by (simp add: pull_then_v1_def Let_def)

lemma pull_then_v1_Cons:
  "pending (stub_of s (recipient (pulls s ! q))) = k # rest \<Longrightarrow>
   pull_then_v1 q b s = enqueue (CatchSkip q k) (event_emit k Fetched Undefined
     (upd_stub (recipient (pulls s ! q)) (\<lambda>st. st\<lparr>active := (if b then (active st)(k \<mapsto> k) else active st)\<rparr>)
       (upd_stub (recipient (pulls s ! q)) (\<lambda>st. st\<lparr>pending := rest\<rparr>)
         (upd_stub (recipient (pulls s ! q)) (\<lambda>st. st\<lparr>waitingSoNotify := None\<rparr>) s))))"
  by (cases "recipient (pulls s ! q) = proto"; cases b)
    (simp_all add: pull_then_v1_def Let_def upd_stub_def stub_of_def)

lemma waiting_pull_then:
  assumes w: "wf s" and i: "waiting p h err r s" and q: "q \<noteq> p"
  shows "waiting p h err r (pull_then q s)"
proof -
  let ?r = "recipient (pulls s ! q)"
  let ?s1 = "upd_stub ?r (\<lambda>st. st\<lparr>waitingSoNotify := None\<rparr>) s"
  have pr: "pending (stub_of s r) = []" using i by (simp add: waiting_def)
  have w1: "wf ?s1" using w by (rule wf_upd_stub_slot_None)
  have i1: "waiting p h err r ?s1" using i by (rule waiting_stub_update) (use pr in simp)
  show ?thesis
  proof (cases "pending (stub_of s ?r)")
    case Nil
    have "waiting p h err r (enqueue (CatchJob q (TypeError ''Cannot read property of undefined'')) ?s1)"
      using i1 by (rule waiting_enqueue) (use q in simp)
    then show ?thesis by (simp only: pull_then_Nil [OF Nil])
  next
    case (Cons k rest)
    then have ne: "?r \<noteq> r" using pr by auto
    let ?s2 = "upd_stub ?r (\<lambda>st. st\<lparr>pending := rest\<rparr>) ?s1"
    have k: "k < length (events s)" using wf_pending_ConsD [OF w Cons] by simp
    have c1: "pending (stub_of ?s1 ?r) = k # rest" using Cons nonempty_not_proto [OF Cons] by simp
    have w2: "wf ?s2" using w1 c1 by (rule wf_shift)
    have i2: "waiting p h err r ?s2" using i1 by (rule waiting_stub_update) (use ne in simp)
    let ?s3 = "track ?r k ?s2"
    have w3: "wf ?s3" using w2 by (rule wf_track)
    have i3: "waiting p h err r ?s3" using i2 by (rule waiting_track)
    have "waiting p h err r (event_emit k Pulled Undefined ?s3)"
      using w3 i3 by (rule waiting_event_emit) (use k in simp)
    then have "waiting p h err r (enqueue (CatchSkip q k) (event_emit k Pulled Undefined ?s3))"
      by (rule waiting_enqueue) (use q in simp)
    then show ?thesis by (simp only: pull_then_Cons [OF Cons])
  qed
qed

lemma waiting_pull_then_v1:
  assumes w: "wf s" and i: "waiting p h err r s" and q: "q \<noteq> p"
  shows "waiting p h err r (pull_then_v1 q b s)"
proof -
  let ?r = "recipient (pulls s ! q)"
  let ?s1 = "upd_stub ?r (\<lambda>st. st\<lparr>waitingSoNotify := None\<rparr>) s"
  have pr: "pending (stub_of s r) = []" using i by (simp add: waiting_def)
  have w1: "wf ?s1" using w by (rule wf_upd_stub_slot_None)
  have i1: "waiting p h err r ?s1" using i by (rule waiting_stub_update) (use pr in simp)
  show ?thesis
  proof (cases "pending (stub_of s ?r)")
    case Nil
    have "waiting p h err r (enqueue (CatchJob q (TypeError ''Cannot read property of undefined'')) ?s1)"
      using i1 by (rule waiting_enqueue) (use q in simp)
    then show ?thesis by (simp only: pull_then_v1_Nil [OF Nil])
  next
    case (Cons k rest)
    then have ne: "?r \<noteq> r" using pr by auto
    let ?s2 = "upd_stub ?r (\<lambda>st. st\<lparr>pending := rest\<rparr>) ?s1"
    let ?s3 = "upd_stub ?r (\<lambda>st. st\<lparr>active := (if b then (active st)(k \<mapsto> k) else active st)\<rparr>) ?s2"
    have k: "k < length (events s)" using wf_pending_ConsD [OF w Cons] by simp
    have c1: "pending (stub_of ?s1 ?r) = k # rest" using Cons nonempty_not_proto [OF Cons] by simp
    have w2: "wf ?s2" using w1 c1 by (rule wf_shift)
    have i2: "waiting p h err r ?s2" using i1 by (rule waiting_stub_update) (use ne in simp)
    have w3: "wf ?s3" using w2 by (rule wf_upd_stub_active)
    have i3: "waiting p h err r ?s3" using i2 by (rule waiting_stub_update) (use ne in simp)
    have "waiting p h err r (event_emit k Fetched Undefined ?s3)"
      using w3 i3 by (rule waiting_event_emit) (use k in simp)
    then have "waiting p h err r (enqueue (CatchSkip q k) (event_emit k Fetched Undefined ?s3))"
      by (rule waiting_enqueue) (use q in simp)
    then show ?thesis by (simp only: pull_then_v1_Cons [OF Cons])
  qed
qed

lemma waiting_clearTimeout_var:
  assumes "wf s" and "waiting p h err r s" and "k < length (events s)"
  shows "waiting p h err r (clearTimeout (pendingTimer (events s ! k)) s)"
    and "waiting p h err r (clearTimeout (handlingTimer (events s ! k)) s)"
proof -
  have "race_timers_same s (clearTimeout (pendingTimer (events s ! k)) s)"
    using wf_varD(1) [OF assms(1,3)] by (intro race_timers_same_clearTimeout) auto
  then show "waiting p h err r (clearTimeout (pendingTimer (events s ! k)) s)"
    by (rule waiting_transfer [OF assms(2)]) simp_all
  have "race_timers_same s (clearTimeout (handlingTimer (events s ! k)) s)"
    using wf_varD(2) [OF assms(1,3)] by (intro race_timers_same_clearTimeout) auto
  then show "waiting p h err r (clearTimeout (handlingTimer (events s ! k)) s)"
    by (rule waiting_transfer [OF assms(2)]) simp_all
qed

lemma then_job_of_pull: "then_job_of q f \<Longrightarrow> job_pull f = Some q"
  by (cases f) simp_all

lemma wf_dequeue:
  assumes "wf s" and "jobs s = j # js"
  shows "wf (s\<lparr>jobs := js\<rparr>)" and "job_ok (s\<lparr>jobs := js\<rparr>) j"
proof -
  show "wf (s\<lparr>jobs := js\<rparr>)"
    using assms
    by (auto simp: wf_defs job_ok_cong [of "s\<lparr>jobs := js\<rparr>" s] intro: callback_ok_mono [of s])
  show "job_ok (s\<lparr>jobs := js\<rparr>) j"
    using wf_jobD [OF assms(1), of j] assms(2) by (simp add: job_ok_cong [of "s\<lparr>jobs := js\<rparr>" s])
qed

lemma waiting_dequeue:
  "waiting p h err r s \<Longrightarrow> jobs s = j # js \<Longrightarrow> waiting p h err r (s\<lparr>jobs := js\<rparr>)"
  by (rule waiting_direct) auto

lemma waiting_run_job:
  assumes w: "wf s" and ok: "job_ok s j" and i: "waiting p h err r s" and j: "job_pull j \<noteq> Some p"
  shows "waiting p h err r (run_job j s)"
proof (cases j)
  case (RaceFulfil q)
  show ?thesis
  proof (cases "q < length (pulls s) \<and> race (pulls s ! q) = Pending")
    case True
    then have "job_pull (on_fulfilled (pulls s ! q)) = Some q"
      using wf_pullD [OF w] then_job_of_pull by blast
    then have "waiting p h err r (enqueue (on_fulfilled (pulls s ! q))
        (upd_pull q (\<lambda>c. c\<lparr>race := Fulfilled ()\<rparr>) s))"
      using i j RaceFulfil by (intro waiting_enqueue waiting_upd_pull) auto
    then show ?thesis using True RaceFulfil by simp
  next
    case False
    then show ?thesis using i RaceFulfil by auto
  qed
next
  case (RaceReject q e)
  then have "waiting p h err r (enqueue (ThenSkip q e) (upd_pull q (\<lambda>c. c\<lparr>race := Rejected e\<rparr>) s))"
    using i j by (intro waiting_enqueue waiting_upd_pull) auto
  then show ?thesis using i RaceReject by auto
next
  case (ThenJob q)
  then show ?thesis using w i j by (simp add: waiting_pull_then)
next
  case (ThenJob_v1 q b)
  then show ?thesis using w i j by (simp add: waiting_pull_then_v1)
next
  case (ThenSkip q e)
  then show ?thesis using i j by (simp add: waiting_enqueue)
next
  case (CatchJob q e)
  have "waiting p h err r (upd_stub (recipient (pulls s ! q)) (\<lambda>st. st\<lparr>waitingSoNotify := None\<rparr>) s)"
    using i by (rule waiting_stub_update) (use i in \<open>simp add: waiting_def\<close>)
  then show ?thesis using CatchJob j by (simp add: pull_catch_def Let_def waiting_upd_pull)
next
  case (CatchSkip q k)
  then show ?thesis using i j by (simp add: waiting_upd_pull)
next
  case (CleanupCatch k)
  then show ?thesis using i by (simp add: waiting_enqueue)
next
  case (CleanupThen k)
  then have k: "k < length (events s)" using ok by simp
  let ?s1 = "clearTimeout (pendingTimer (events s ! k)) s"
  have "wf ?s1" "waiting p h err r ?s1"
    using w i k by (simp_all add: wf_clearTimeout waiting_clearTimeout_var)
  then have "waiting p h err r (clearTimeout (handlingTimer (events ?s1 ! k)) ?s1)"
    using k waiting_clearTimeout_var(2) [of ?s1 p h err r k] by simp
  then show ?thesis using CleanupThen by simp
qed

lemma waiting_tick:
  assumes "wf s" and "waiting p h err r s"
  shows "waiting p h err r (tick s)"
proof (cases "jobs s")
  case Nil
  then show ?thesis using assms by (simp add: tick_def)
next
  case (Cons j js)
  have "job_pull j \<noteq> Some p" using assms(2) Cons by (simp add: waiting_def)
  then have "waiting p h err r (run_job j (s\<lparr>jobs := js\<rparr>))"
    using wf_dequeue [OF assms(1) Cons] waiting_dequeue [OF assms(2) Cons]
    by (intro waiting_run_job) simp_all
  then show ?thesis using Cons by (simp add: tick_def)
qed

lemma waiting_set_status:
  "waiting p h err r s \<Longrightarrow> h' \<noteq> h \<Longrightarrow> waiting p h err r (set_status h' st s)"
  by (rule waiting_direct) (simp_all add: timers_set_status)

lemma waiting_settle: "waiting p h err r s \<Longrightarrow> waiting p h err r (settle k outcome s)"
  by (rule waiting_direct) (auto simp: jobs_settle)

lemma waiting_fire:
  assumes "waiting p h err r s" and "h' \<noteq> h"
  shows "waiting p h err r (fire h' s)"
proof (cases "jobs s = [] \<and> h' < length (timers s) \<and> status (timers s ! h') = Armed")
  case True
  have 1: "waiting p h err r (set_status h' Fired s)"
    using assms by (rule waiting_set_status)
  have "waiting p h err r (run_callback (callback (timers s ! h')) (set_status h' Fired s))"
  proof (cases "callback (timers s ! h')")
    case (OnTimeout k m)
    then show ?thesis using 1 by (simp add: waiting_settle)
  next
    case (RejectRace q e)
    then have "q \<noteq> p" using assms True by (auto simp: waiting_def)
    then show ?thesis using 1 RejectRace by (simp add: waiting_enqueue)
  qed
  then show ?thesis using True by (simp add: fire_def)
next
  case False
  then show ?thesis using assms by (auto simp: fire_def)
qed

lemma waiting_step:
  assumes "wf s" and "waiting p h err r s" and "\<not> emits_to r a" and "a \<noteq> Fire h"
  shows "waiting p h err r (step a s)"
  using assms
  by (cases a)
    (simp_all add: emit_def emitAndWait_def waiting_emitWithOptions waiting_emit_v1 waiting_pull
      waiting_pull_v1 waiting_signal waiting_tick waiting_fire)

lemma waiting_run:
  assumes "wf s" and "waiting p h err r s" and "\<forall>a\<in>set acts. \<not> emits_to r a \<and> a \<noteq> Fire h"
  shows "waiting p h err r (run acts s) \<and> wf (run acts s)"
  using assms unfolding run_def
proof (induction acts arbitrary: s)
  case Nil
  then show ?case by simp
next
  case (Cons a acts)
  then show ?case by (simp add: waiting_step wf_step)
qed

lemma waiting_drain: "wf s \<Longrightarrow> waiting p h err r s \<Longrightarrow> waiting p h err r (drain s) \<and> wf (drain s)"
proof (induction s rule: drain.induct)
  case (1 s)
  show ?case
  proof (cases "jobs s = []")
    case True
    then show ?thesis using 1 by (simp add: drain.simps)
  next
    case False
    then have "waiting p h err r (drain (tick s)) \<and> wf (drain (tick s))"
      using 1 by (intro "1.IH") (simp_all add: waiting_tick wf_tick)
    then show ?thesis using False by (simp add: drain.simps [of s])
  qed
qed

lemma drain_unfold:
  "jobs s = [] \<Longrightarrow> drain s = s"
  "jobs s = j # js \<Longrightarrow> drain s = drain (run_job j (s\<lparr>jobs := js\<rparr>))"
  by (simp_all add: drain.simps [of s] tick_def)

lemma waiting_after_pull:
  assumes w: "wf s" and v: "\<not> invalid_recipient recipientId"
    and e: "pending (stub_of s (key_of recipientId)) = []"
    and h: "\<not> shadowed s"
  shows "fst (pull recipientId t s) = PullPromise (length (pulls s))"
    and "waiting (length (pulls s)) (length (timers s)) (TimeoutError ''timeout on waiting for event'')
          (key_of recipientId) (snd (pull recipientId t s))"
proof -
  show "fst (pull recipientId t s) = PullPromise (length (pulls s))"
    using v e h by (simp add: pull_def Let_def case_prod_beta)
  have j: "job_pull j \<noteq> Some (length (pulls s))" if "j \<in> set (jobs s)" for j
    using wf_jobD [OF w that] by (cases j) auto
  have c: "callback (timers s ! i) \<noteq> RejectRace (length (pulls s)) x" if "i < length (timers s)" for i x
    using wf_timerD [OF w that] by (cases "callback (timers s ! i)") auto
  show "waiting (length (pulls s)) (length (timers s)) (TimeoutError ''timeout on waiting for event'')
          (key_of recipientId) (snd (pull recipientId t s))"
    using v e h j c
    by (auto simp: pull_def Let_def case_prod_beta waiting_def pulls_new_pull nth_append)
qed

lemma enqueue_set_jobs [simp]: "(enqueue j s)\<lparr>jobs := js\<rparr> = s\<lparr>jobs := js\<rparr>"
  by (simp add: enqueue_def)

lemma timed_out:
  assumes i: "waiting p h err r s" and e: "jobs s = []"
  shows "result (pulls (drain (fire h s)) ! p) = Rejected err"
    and "pending (stub_of (drain (fire h s)) r) = []"
proof -
  have f: "p < length (pulls s)" "recipient (pulls s ! p) = r" "race (pulls s ! p) = Pending"
    "h < length (timers s)" "callback (timers s ! h) = RejectRace p err"
    "status (timers s ! h) = Armed" "pending (stub_of s r) = []"
    using i by (simp_all add: waiting_def)
  let ?s0 = "set_status h Fired s"
  let ?s1 = "enqueue (ThenSkip p err) (upd_pull p (\<lambda>c. c\<lparr>race := Rejected err\<rparr>) (?s0\<lparr>jobs := []\<rparr>))"
  let ?s2 = "enqueue (CatchJob p err) (?s1\<lparr>jobs := []\<rparr>)"
  let ?s3 = "pull_catch p err (?s2\<lparr>jobs := []\<rparr>)"
  have 0: "fire h s = enqueue (RaceReject p err) ?s0" using f e by (simp add: fire_def)
  have "drain (fire h s) = drain ?s1"
    using f e by (subst drain_unfold(2) [of _ "RaceReject p err" "[]"]) (simp_all add: 0)
  also have "\<dots> = drain ?s2"
    using e by (subst drain_unfold(2) [of _ "ThenSkip p err" "[]"]) simp_all
  also have "\<dots> = drain ?s3"
    using e by (subst drain_unfold(2) [of _ "CatchJob p err" "[]"]) simp_all
  also have "\<dots> = ?s3"
    using e by (intro drain_unfold(1)) (simp add: pull_catch_def Let_def)
  finally have d: "drain (fire h s) = ?s3" .
  show "result (pulls (drain (fire h s)) ! p) = Rejected err"
    using f by (simp add: d pull_catch_def Let_def pulls_upd_pull)
  show "pending (stub_of (drain (fire h s)) r) = []"
    using f by (simp add: d pull_catch_def Let_def pulls_upd_pull)
qed

section \<open>Timeout of a pull\<close>

text \<open>
  In a state that a run of the pool has reached and in which \<open>hasOwnProperty\<close> of \<open>queues\<close> is
  not shadowed, \<open>pull\<close> for a valid recipient with an empty pending queue returns a promise that stays pending, with its timer armed and the
  queue empty, through every run of further steps that holds no emit for that recipient
  (the steps may be emits for other recipients, other pulls, signals on records, promise
  jobs and other timers). When the timer then fires, the promise is rejected with the
  timeout error; no record has been taken from the queue, which is still empty.
\<close>

lemma pull_times_out:
  assumes "reachable s" and "\<not> invalid_recipient recipientId"
    and "pending (stub_of s (key_of recipientId)) = []"
    and "\<forall>a\<in>set acts. \<not> emits_to (key_of recipientId) a \<and> a \<noteq> Fire (length (timers s))"
    and "\<not> shadowed s"
  shows "fst (pull recipientId t s) = PullPromise (length (pulls s))
     \<and> pending (stub_of (snd (pull recipientId t s)) (key_of recipientId)) = []
     \<and> pending (stub_of (drain (run acts (snd (pull recipientId t s)))) (key_of recipientId)) = []
     \<and> result (pulls (drain (run acts (snd (pull recipientId t s)))) ! length (pulls s)) = Pending
     \<and> status (timers (drain (run acts (snd (pull recipientId t s)))) ! length (timers s)) = Armed
     \<and> result (pulls (drain (fire (length (timers s))
           (drain (run acts (snd (pull recipientId t s)))))) ! length (pulls s))
         = Rejected (TimeoutError ''timeout on waiting for event'')
     \<and> pending (stub_of (drain (fire (length (timers s))
           (drain (run acts (snd (pull recipientId t s)))))) (key_of recipientId)) = []"
proof -
  let ?p = "length (pulls s)" and ?h = "length (timers s)" and ?r = "key_of recipientId"
  let ?e = "TimeoutError ''timeout on waiting for event''"
  let ?s1 = "snd (pull recipientId t s)"
  let ?s2 = "drain (run acts ?s1)"
  have w: "wf s" using assms(1) by (rule reachable_wf)
  have w1: "wf ?s1" using w by (rule wf_pull)
  have i1: "waiting ?p ?h ?e ?r ?s1" using w assms(2,3,5) by (rule waiting_after_pull)
  have "waiting ?p ?h ?e ?r (run acts ?s1) \<and> wf (run acts ?s1)"
    using w1 i1 assms(4) by (rule waiting_run)
  then have i2: "waiting ?p ?h ?e ?r ?s2" using waiting_drain by blast
  have e2: "jobs ?s2 = []" by (rule drain_empty)
  show ?thesis
    using waiting_after_pull(1) [OF w assms(2,3,5), of t] i1 i2 timed_out [OF i2 e2]
    by (simp add: waiting_def)
qed

text \<open>
  C5 on the code: on a new pool, after \<^verbatim>\<open>emit( "hasOwnProperty", "e" )\<close> has stored a stub under
  the name of the method, \<^verbatim>\<open>pull( "x", 100 )\<close> finds the pending queue of \<^verbatim>\<open>"x"\<close> empty and no
  emit for \<^verbatim>\<open>"x"\<close> follows. The call throws a \<open>TypeError\<close> where it calls
  \<^verbatim>\<open>this.queues.hasOwnProperty\<close>: it returns no promise, arms no timer and so never fails with
  the timeout error; the state is as it was.
\<close>

theorem pull_throws_when_shadowed:
  "shadowed shadowing
   \<and> pending (stub_of shadowing ''x'') = []
   \<and> pull (Str ''x'') 100 shadowing
       = (Throws (TypeError ''this.queues.hasOwnProperty is not a function''), shadowing)
   \<and> timers shadowing = []"
  by (simp add: shadowing_def model_defs)

section \<open>Isolation of recipients\<close>

lemma confined_frame:
  assumes c: "confined k r s"
    and ev: "length (events s) \<le> length (events t)"
    and pd: "\<And>r'. r' \<noteq> r \<Longrightarrow> k \<in> set (pending (stub_of t r')) \<Longrightarrow> k \<in> set (pending (stub_of s r'))"
    and pl: "length (pulls s) \<le> length (pulls t)"
    and rs: "\<And>p. p < length (pulls t) \<Longrightarrow> result (pulls t ! p) = Fulfilled k \<Longrightarrow>
               p < length (pulls s) \<and> result (pulls s ! p) = Fulfilled k"
    and rc: "\<And>p. p < length (pulls s) \<Longrightarrow> recipient (pulls t ! p) = recipient (pulls s ! p)"
    and jb: "\<And>p. CatchSkip p k \<in> set (jobs t) \<Longrightarrow> CatchSkip p k \<in> set (jobs s)"
  shows "confined k r t"
proof -
  have c1: "k < length (events s)"
    and c2: "\<And>r'. r' \<noteq> r \<Longrightarrow> k \<notin> set (pending (stub_of s r'))"
    and c3: "\<And>p. p < length (pulls s) \<Longrightarrow> result (pulls s ! p) = Fulfilled k \<Longrightarrow> recipient (pulls s ! p) = r"
    and c4: "\<And>p. CatchSkip p k \<in> set (jobs s) \<Longrightarrow> p < length (pulls s) \<and> recipient (pulls s ! p) = r"
    using c by (simp_all add: confined_def)
  show ?thesis
    unfolding confined_def
  proof (intro conjI allI impI)
    show "k < length (events t)" using c1 ev by simp
    show "k \<notin> set (pending (stub_of t r'))" if "r' \<noteq> r" for r'
      using pd [OF that] c2 [OF that] by blast
    show "recipient (pulls t ! p) = r" if "p < length (pulls t)" "result (pulls t ! p) = Fulfilled k" for p
      using rs [OF that] c3 [of p] rc [of p] by simp
    show "p < length (pulls t)" if "CatchSkip p k \<in> set (jobs t)" for p
      using c4 [OF jb [OF that]] pl by simp
    show "recipient (pulls t ! p) = r" if "CatchSkip p k \<in> set (jobs t)" for p
      using c4 [OF jb [OF that]] rc [of p] by simp
  qed
qed

lemma confined_enqueue:
  assumes "confined k r s" and "\<And>p. j = CatchSkip p k \<Longrightarrow> p < length (pulls s) \<and> recipient (pulls s ! p) = r"
  shows "confined k r (enqueue j s)"
  using assms by (auto simp: confined_def)

lemma confined_enqueue_other:
  "confined k r s \<Longrightarrow> \<forall>p. j \<noteq> CatchSkip p k \<Longrightarrow> confined k r (enqueue j s)"
  by (rule confined_enqueue) auto

lemma confined_upd_stub:
  assumes "confined k r s" and "r' \<noteq> r \<Longrightarrow> k \<notin> set (pending (f (stub_of s r')))"
  shows "confined k r (upd_stub r' f s)"
  using assms by (auto simp: confined_def)

lemma confined_track: "confined k r s \<Longrightarrow> confined k r (track r' k' s)"
  by (rule confined_frame) auto

lemma confined_upd_pull:
  assumes "confined k r s" and "\<And>c. recipient (f c) = recipient c"
    and "\<And>c. result (f c) = Fulfilled k \<Longrightarrow> result c = Fulfilled k \<or> recipient c = r"
  shows "confined k r (upd_pull p f s)"
  using assms by (auto simp: confined_def pulls_upd_pull)

lemma confined_event_emit:
  assumes "confined k r s"
  shows "confined k r (event_emit k' sig v s)"
proof (rule confined_frame [OF assms])
  obtain js where js: "jobs (event_emit k' sig v s) = jobs s @ js" "\<forall>j\<in>set js. \<exists>i. j = CleanupCatch i"
    using jobs_event_emit by blast
  show "CatchSkip p k \<in> set (jobs s)" if "CatchSkip p k \<in> set (jobs (event_emit k' sig v s))" for p
    using that js by auto
qed simp_all

lemma confined_settle:
  assumes "confined k r s"
  shows "confined k r (settle k' outcome s)"
  by (rule confined_frame [OF assms]) (auto simp: jobs_settle)

lemma confined_clearTimeout:
  assumes "confined k r s"
  shows "confined k r (clearTimeout t s)"
  by (rule confined_frame [OF assms]) simp_all

lemma confined_set_status:
  assumes "confined k r s"
  shows "confined k r (set_status h st s)"
  by (rule confined_frame [OF assms]) simp_all

lemma notify_pull_fields [simp]:
  "recipient (pulls (notify r s) ! p) = recipient (pulls s ! p)"
  "result (pulls (notify r s) ! p) = result (pulls s ! p)"
  "race (pulls (notify r s) ! p) = race (pulls s ! p)"
  "on_fulfilled (pulls (notify r s) ! p) = on_fulfilled (pulls s ! p)"
  by (simp_all add: pulls_notify split: option.splits)

lemma emitWithOptions_pull_fields [simp]:
  "length (pulls (snd (emitWithOptions recipientId n a ov s))) = length (pulls s)"
  "recipient (pulls (snd (emitWithOptions recipientId n a ov s)) ! p) = recipient (pulls s ! p)"
  "result (pulls (snd (emitWithOptions recipientId n a ov s)) ! p) = result (pulls s ! p)"
  "race (pulls (snd (emitWithOptions recipientId n a ov s)) ! p) = race (pulls s ! p)"
  by (simp_all add: emitWithOptions_def Let_def case_prod_beta)

lemma emit_v1_pull_fields [simp]:
  "length (pulls (snd (emit_v1 recipientId n a s))) = length (pulls s)"
  "recipient (pulls (snd (emit_v1 recipientId n a s)) ! p) = recipient (pulls s ! p)"
  "result (pulls (snd (emit_v1 recipientId n a s)) ! p) = result (pulls s ! p)"
  "race (pulls (snd (emit_v1 recipientId n a s)) ! p) = race (pulls s ! p)"
  by (simp_all add: emit_v1_def Let_def case_prod_beta)

lemma emitWithOptions_events:
  "length (events (snd (emitWithOptions recipientId n a ov s)))
     = (if fst (emitWithOptions recipientId n a ov s) = EmitPromise (length (events s))
        then Suc (length (events s)) else length (events s))"
  by (simp add: emitWithOptions_def Let_def case_prod_beta)

lemma emit_v1_events:
  "length (events (snd (emit_v1 recipientId n a s)))
     = (if fst (emit_v1 recipientId n a s) = EmitPromise (length (events s))
        then Suc (length (events s)) else length (events s))"
  by (simp add: emit_v1_def Let_def case_prod_beta)

lemma emitWithOptions_pending:
  "pending (stub_of (snd (emitWithOptions recipientId n a ov s)) r)
     = (if fst (emitWithOptions recipientId n a ov s) = EmitPromise (length (events s))
           \<and> r = key_of recipientId \<and> r \<noteq> proto
        then pending (stub_of s r) @ [length (events s)] else pending (stub_of s r))"
  by (simp add: emitWithOptions_def Let_def case_prod_beta stub_of_notify)

lemma emit_v1_pending:
  "pending (stub_of (snd (emit_v1 recipientId n a s)) r)
     = (if fst (emit_v1 recipientId n a s) = EmitPromise (length (events s))
           \<and> r = key_of recipientId \<and> r \<noteq> proto
        then pending (stub_of s r) @ [length (events s)] else pending (stub_of s r))"
  by (simp add: emit_v1_def Let_def case_prod_beta stub_of_notify)

lemma confined_emitWithOptions:
  assumes "wf s" and "confined k r s"
  shows "confined k r (snd (emitWithOptions recipientId n a ov s))"
proof (rule confined_frame [OF assms(2)])
  have k: "k < length (events s)" using assms(2) by (simp add: confined_def)
  show "k \<in> set (pending (stub_of s r'))"
    if "k \<in> set (pending (stub_of (snd (emitWithOptions recipientId n a ov s)) r'))" for r'
    using that k by (auto simp: emitWithOptions_pending split: if_splits)
  show "CatchSkip p k \<in> set (jobs s)"
    if "CatchSkip p k \<in> set (jobs (snd (emitWithOptions recipientId n a ov s)))" for p
    using emitWithOptions_jobs [OF assms(1) that] by auto
qed (simp_all add: emitWithOptions_events)

lemma confined_emit_v1:
  assumes "wf s" and "confined k r s"
  shows "confined k r (snd (emit_v1 recipientId n a s))"
proof (rule confined_frame [OF assms(2)])
  have k: "k < length (events s)" using assms(2) by (simp add: confined_def)
  show "k \<in> set (pending (stub_of s r'))"
    if "k \<in> set (pending (stub_of (snd (emit_v1 recipientId n a s)) r'))" for r'
    using that k by (auto simp: emit_v1_pending split: if_splits)
  show "CatchSkip p k \<in> set (jobs s)"
    if "CatchSkip p k \<in> set (jobs (snd (emit_v1 recipientId n a s)))" for p
    using emit_v1_jobs [OF assms(1) that] by auto
qed (simp_all add: emit_v1_events)

lemma confined_pull:
  assumes "confined k r s"
  shows "confined k r (snd (pull recipientId t s))"
  by (rule confined_frame [OF assms])
    (auto simp: pull_def Let_def case_prod_beta pulls_new_pull less_Suc_eq split: if_splits)

lemma confined_pull_v1:
  assumes "confined k r s"
  shows "confined k r (snd (pull_v1 recipientId t w s))"
  by (rule confined_frame [OF assms])
    (auto simp: pull_v1_def Let_def case_prod_beta pulls_new_pull less_Suc_eq split: if_splits)

lemma confined_pull_then:
  assumes w: "wf s" and c: "confined k r s" and q: "q < length (pulls s)"
  shows "confined k r (pull_then q s)"
proof -
  let ?r = "recipient (pulls s ! q)"
  let ?s1 = "upd_stub ?r (\<lambda>st. st\<lparr>waitingSoNotify := None\<rparr>) s"
  have c1: "confined k r ?s1" using c by (rule confined_upd_stub) (use c in \<open>simp add: confined_def\<close>)
  show ?thesis
  proof (cases "pending (stub_of s ?r)")
    case Nil
    have "confined k r (enqueue (CatchJob q (TypeError ''Cannot read property of undefined'')) ?s1)"
      using c1 by (rule confined_enqueue) simp
    then show ?thesis by (simp only: pull_then_Nil [OF Nil])
  next
    case (Cons k' rest)
    let ?s2 = "upd_stub ?r (\<lambda>st. st\<lparr>pending := rest\<rparr>) ?s1"
    have nk: "k \<notin> set (pending (stub_of s ?r))" if "?r \<noteq> r"
      using c that by (simp add: confined_def)
    have "confined k r ?s2" using c1 by (rule confined_upd_stub) (use nk Cons in auto)
    then have "confined k r (track ?r k' ?s2)" by (rule confined_track)
    then have "confined k r (event_emit k' Pulled Undefined (track ?r k' ?s2))"
      by (rule confined_event_emit)
    then have "confined k r (enqueue (CatchSkip q k') (event_emit k' Pulled Undefined (track ?r k' ?s2)))"
      by (rule confined_enqueue) (use nk Cons q in auto)
    then show ?thesis by (simp only: pull_then_Cons [OF Cons])
  qed
qed

lemma confined_pull_then_v1:
  assumes w: "wf s" and c: "confined k r s" and q: "q < length (pulls s)"
  shows "confined k r (pull_then_v1 q b s)"
proof -
  let ?r = "recipient (pulls s ! q)"
  let ?s1 = "upd_stub ?r (\<lambda>st. st\<lparr>waitingSoNotify := None\<rparr>) s"
  have c1: "confined k r ?s1" using c by (rule confined_upd_stub) (use c in \<open>simp add: confined_def\<close>)
  show ?thesis
  proof (cases "pending (stub_of s ?r)")
    case Nil
    have "confined k r (enqueue (CatchJob q (TypeError ''Cannot read property of undefined'')) ?s1)"
      using c1 by (rule confined_enqueue) simp
    then show ?thesis by (simp only: pull_then_v1_Nil [OF Nil])
  next
    case (Cons k' rest)
    let ?s2 = "upd_stub ?r (\<lambda>st. st\<lparr>pending := rest\<rparr>) ?s1"
    let ?s3 = "upd_stub ?r (\<lambda>st. st\<lparr>active := (if b then (active st)(k' \<mapsto> k') else active st)\<rparr>) ?s2"
    have nk: "k \<notin> set (pending (stub_of s ?r))" if "?r \<noteq> r"
      using c that by (simp add: confined_def)
    have "confined k r ?s2" using c1 by (rule confined_upd_stub) (use nk Cons in auto)
    then have "confined k r ?s3" by (rule confined_upd_stub) (use nk Cons in auto)
    then have "confined k r (event_emit k' Fetched Undefined ?s3)" by (rule confined_event_emit)
    then have "confined k r (enqueue (CatchSkip q k') (event_emit k' Fetched Undefined ?s3))"
      by (rule confined_enqueue) (use nk Cons q in auto)
    then show ?thesis by (simp only: pull_then_v1_Cons [OF Cons])
  qed
qed

lemma confined_run_job:
  assumes w: "wf s" and ok: "job_ok s j" and c: "confined k r s"
    and j: "\<And>p. j = CatchSkip p k \<Longrightarrow> recipient (pulls s ! p) = r"
  shows "confined k r (run_job j s)"
proof (cases j)
  case (RaceFulfil q)
  show ?thesis
  proof (cases "q < length (pulls s) \<and> race (pulls s ! q) = Pending")
    case True
    then have "then_job_of q (on_fulfilled (pulls s ! q))" using wf_pullD [OF w] by blast
    then have n: "on_fulfilled (pulls s ! q) \<noteq> CatchSkip p k" for p
      by (cases "on_fulfilled (pulls s ! q)") auto
    have "confined k r (upd_pull q (\<lambda>c. c\<lparr>race := Fulfilled ()\<rparr>) s)"
      using c by (rule confined_upd_pull) simp_all
    then have "confined k r (enqueue (on_fulfilled (pulls s ! q)) (upd_pull q (\<lambda>c. c\<lparr>race := Fulfilled ()\<rparr>) s))"
      by (rule confined_enqueue) (use n in auto)
    then show ?thesis using True RaceFulfil by simp
  next
    case False
    then show ?thesis using c RaceFulfil by auto
  qed
next
  case (RaceReject q e)
  have "confined k r (upd_pull q (\<lambda>c. c\<lparr>race := Rejected e\<rparr>) s)"
    using c by (rule confined_upd_pull) simp_all
  then have "confined k r (enqueue (ThenSkip q e) (upd_pull q (\<lambda>c. c\<lparr>race := Rejected e\<rparr>) s))"
    by (rule confined_enqueue) simp
  then show ?thesis using c RaceReject by auto
next
  case (ThenJob q)
  then show ?thesis using w c ok by (simp add: confined_pull_then)
next
  case (ThenJob_v1 q b)
  then show ?thesis using w c ok by (simp add: confined_pull_then_v1)
next
  case (ThenSkip q e)
  then show ?thesis using c by (simp add: confined_enqueue_other)
next
  case (CatchJob q e)
  have "confined k r (upd_stub (recipient (pulls s ! q)) (\<lambda>st. st\<lparr>waitingSoNotify := None\<rparr>) s)"
    using c by (rule confined_upd_stub) (use c in \<open>simp add: confined_def\<close>)
  then have "confined k r (upd_pull q (\<lambda>c. c\<lparr>result := Rejected e\<rparr>)
      (upd_stub (recipient (pulls s ! q)) (\<lambda>st. st\<lparr>waitingSoNotify := None\<rparr>) s))"
    by (rule confined_upd_pull) simp_all
  then show ?thesis using CatchJob by (simp add: pull_catch_def Let_def)
next
  case (CatchSkip q k')
  have "confined k r (upd_pull q (\<lambda>c. c\<lparr>result := Fulfilled k'\<rparr>) s)"
  proof (cases "k' = k")
    case True
    then have "recipient (pulls s ! q) = r" and "q < length (pulls s)"
      using j CatchSkip ok by simp_all
    then show ?thesis using c by (auto simp: confined_def pulls_upd_pull)
  next
    case False
    show ?thesis using c by (rule confined_upd_pull) (use False in simp_all)
  qed
  then show ?thesis using CatchSkip by simp
next
  case (CleanupCatch i)
  then show ?thesis using c by (simp add: confined_enqueue_other)
next
  case (CleanupThen i)
  then show ?thesis using c by (simp add: confined_clearTimeout)
qed

lemma confined_tick:
  assumes "wf s" and "confined k r s"
  shows "confined k r (tick s)"
proof (cases "jobs s")
  case Nil
  then show ?thesis using assms by (simp add: tick_def)
next
  case (Cons j js)
  have c: "confined k r (s\<lparr>jobs := js\<rparr>)"
    by (rule confined_frame [OF assms(2)]) (use Cons in auto)
  have "recipient (pulls s ! p) = r" if "j = CatchSkip p k" for p
    using assms(2) Cons that by (simp add: confined_def)
  then have "confined k r (run_job j (s\<lparr>jobs := js\<rparr>))"
    using wf_dequeue [OF assms(1) Cons] c by (intro confined_run_job) simp_all
  then show ?thesis using Cons by (simp add: tick_def)
qed

lemma confined_fire:
  assumes "confined k r s"
  shows "confined k r (fire h s)"
proof (cases "jobs s = [] \<and> h < length (timers s) \<and> status (timers s ! h) = Armed")
  case True
  have 1: "confined k r (set_status h Fired s)" using assms by (rule confined_set_status)
  have "confined k r (run_callback (callback (timers s ! h)) (set_status h Fired s))"
    using 1 by (cases "callback (timers s ! h)") (simp_all add: confined_settle confined_enqueue_other)
  then show ?thesis using True by (simp add: fire_def)
next
  case False
  then show ?thesis using assms by (auto simp: fire_def)
qed

lemma confined_step: "wf s \<Longrightarrow> confined k r s \<Longrightarrow> confined k r (step a s)"
  by (cases a)
    (simp_all add: emit_def emitAndWait_def confined_emitWithOptions confined_emit_v1 confined_pull
      confined_pull_v1 confined_event_emit signal_def confined_tick confined_fire)

lemma confined_run: "wf s \<Longrightarrow> confined k r s \<Longrightarrow> confined k r (run acts s)"
  unfolding run_def
proof (induction acts arbitrary: s)
  case Nil
  then show ?case by simp
next
  case (Cons a acts)
  then show ?case by (simp add: confined_step wf_step)
qed

lemma queues_notify_other: "r \<noteq> r' \<Longrightarrow> queues (notify r' s) r = queues s r"
proof (cases "waitingSoNotify (stub_of s r')")
  case None
  then show ?thesis by (simp add: notify_def)
next
  case (Some n)
  assume "r \<noteq> r'"
  then show ?thesis using Some by (cases n) (simp_all add: notify_def)
qed

lemma emitWithOptions_other_queue:
  "r \<noteq> key_of recipientId \<Longrightarrow> queues (snd (emitWithOptions recipientId n a ov s)) r = queues s r"
  by (simp add: emitWithOptions_def Let_def case_prod_beta queues_notify_other queues_ensure_stub)

lemma emit_v1_other_queue:
  "r \<noteq> key_of recipientId \<Longrightarrow> queues (snd (emit_v1 recipientId n a s)) r = queues s r"
  by (simp add: emit_v1_def Let_def case_prod_beta queues_notify_other queues_ensure_stub)

lemma confined_fresh:
  assumes w: "wf s" and t: "length (events t) = Suc (length (events s))"
    and pd: "\<And>r'. r' \<noteq> r \<Longrightarrow> pending (stub_of t r') = pending (stub_of s r')"
    and pl: "length (pulls t) = length (pulls s)"
    and rs: "\<And>p. result (pulls t ! p) = result (pulls s ! p)"
    and jb: "\<And>j. j \<in> set (jobs t) \<Longrightarrow> j \<in> set (jobs s) \<or> (\<exists>q. j = RaceFulfil q)"
  shows "confined (length (events s)) r t"
  unfolding confined_def
proof (intro conjI allI impI)
  show "length (events s) < length (events t)" using t by simp
  show "length (events s) \<notin> set (pending (stub_of t r'))" if "r' \<noteq> r" for r'
    using wf_pendingD [OF w, of "length (events s)" r'] pd [OF that] by auto
  show "recipient (pulls t ! p) = r"
    if "p < length (pulls t)" "result (pulls t ! p) = Fulfilled (length (events s))" for p
    using that w rs [of p] pl by (auto simp: wf_defs)
  have no: "CatchSkip p (length (events s)) \<notin> set (jobs t)" for p
  proof
    assume "CatchSkip p (length (events s)) \<in> set (jobs t)"
    then have "CatchSkip p (length (events s)) \<in> set (jobs s)" using jb by blast
    then show False using wf_jobD [OF w] by fastforce
  qed
  show "p < length (pulls t)" if "CatchSkip p (length (events s)) \<in> set (jobs t)" for p
    using that no by blast
  show "recipient (pulls t ! p) = r" if "CatchSkip p (length (events s)) \<in> set (jobs t)" for p
    using that no by blast
qed

lemma isolated_emitWithOptions:
  assumes w: "wf s" and r: "r \<noteq> r'"
  shows "queues (snd (emitWithOptions (Str r') n a ov s)) r = queues s r"
    and "\<forall>p<length (pulls s). recipient (pulls s ! p) = r \<longrightarrow>
           pulls (snd (emitWithOptions (Str r') n a ov s)) ! p = pulls s ! p"
    and "\<forall>j\<in>set (jobs (snd (emitWithOptions (Str r') n a ov s))). j \<in> set (jobs s)
           \<or> (\<exists>q<length (pulls s). j = RaceFulfil q \<and> recipient (pulls s ! q) = r')"
    and "length (events (snd (emitWithOptions (Str r') n a ov s))) = Suc (length (events s)) \<Longrightarrow>
           confined (length (events s)) r' (snd (emitWithOptions (Str r') n a ov s))"
proof -
  let ?t = "snd (emitWithOptions (Str r') n a ov s)"
  show "queues ?t r = queues s r" using r by (simp add: emitWithOptions_other_queue)
  show "\<forall>p<length (pulls s). recipient (pulls s ! p) = r \<longrightarrow> pulls ?t ! p = pulls s ! p"
    using w r by (simp add: emitWithOptions_keeps_pull)
  show "\<forall>j\<in>set (jobs ?t). j \<in> set (jobs s)
           \<or> (\<exists>q<length (pulls s). j = RaceFulfil q \<and> recipient (pulls s ! q) = r')"
    using emitWithOptions_jobs [OF w, of _ "Str r'" n a ov] by simp
  show "confined (length (events s)) r' ?t" if "length (events ?t) = Suc (length (events s))"
  proof (rule confined_fresh [OF w that])
    show "j \<in> set (jobs s) \<or> (\<exists>q. j = RaceFulfil q)" if "j \<in> set (jobs ?t)" for j
      using emitWithOptions_jobs [OF w that] by auto
  qed (simp_all add: emitWithOptions_pending)
qed

lemma isolated_emit_v1:
  assumes w: "wf s" and r: "r \<noteq> r'"
  shows "queues (snd (emit_v1 (Str r') n a s)) r = queues s r"
    and "\<forall>p<length (pulls s). recipient (pulls s ! p) = r \<longrightarrow>
           pulls (snd (emit_v1 (Str r') n a s)) ! p = pulls s ! p"
    and "\<forall>j\<in>set (jobs (snd (emit_v1 (Str r') n a s))). j \<in> set (jobs s)
           \<or> (\<exists>q<length (pulls s). j = RaceFulfil q \<and> recipient (pulls s ! q) = r')"
    and "length (events (snd (emit_v1 (Str r') n a s))) = Suc (length (events s)) \<Longrightarrow>
           confined (length (events s)) r' (snd (emit_v1 (Str r') n a s))"
proof -
  let ?t = "snd (emit_v1 (Str r') n a s)"
  show "queues ?t r = queues s r" using r by (simp add: emit_v1_other_queue)
  show "\<forall>p<length (pulls s). recipient (pulls s ! p) = r \<longrightarrow> pulls ?t ! p = pulls s ! p"
    using w r by (simp add: emit_v1_keeps_pull)
  show "\<forall>j\<in>set (jobs ?t). j \<in> set (jobs s)
           \<or> (\<exists>q<length (pulls s). j = RaceFulfil q \<and> recipient (pulls s ! q) = r')"
    using emit_v1_jobs [OF w, of _ "Str r'" n a] by simp
  show "confined (length (events s)) r' ?t" if "length (events ?t) = Suc (length (events s))"
  proof (rule confined_fresh [OF w that])
    show "j \<in> set (jobs s) \<or> (\<exists>q. j = RaceFulfil q)" if "j \<in> set (jobs ?t)" for j
      using emit_v1_jobs [OF w that] by auto
  qed (simp_all add: emit_v1_pending)
qed

lemma isolated_step:
  assumes w: "wf s" and a: "emits_to r' a" and r: "r \<noteq> r'"
  shows "queues (step a s) r = queues s r"
    and "\<forall>p<length (pulls s). recipient (pulls s ! p) = r \<longrightarrow> pulls (step a s) ! p = pulls s ! p"
    and "\<forall>j\<in>set (jobs (step a s)). j \<in> set (jobs s)
           \<or> (\<exists>q<length (pulls s). j = RaceFulfil q \<and> recipient (pulls s ! q) = r')"
    and "length (events (step a s)) = Suc (length (events s)) \<Longrightarrow>
           confined (length (events s)) r' (step a s)"
  using a isolated_emitWithOptions [OF w r] isolated_emit_v1 [OF w r]
  by (cases a; simp add: emit_def emitAndWait_def)+

text \<open>
  C9. In a state that a run of the pool has reached, an emit for recipient \<open>r'\<close> (by
  \<open>emit\<close>, \<open>emitAndWait\<close> or \<open>emitWithOptions\<close>, or by \<open>emit\<close> of the older revision)
  leaves the stub of every other recipient \<open>r\<close> as it was (pending queue, active map and
  notifier slot), leaves every pull call for \<open>r\<close> as it was, and queues no job but the
  wake-up of a pull for \<open>r'\<close>. If it makes a record, then in every later state of every
  run a pull that has this record as its value is a pull for \<open>r'\<close>.
\<close>

theorem emit_isolated:
  assumes "reachable s" and "emits_to r' a" and "r \<noteq> r'"
  shows "queues (step a s) r = queues s r
     \<and> (\<forall>p<length (pulls s). recipient (pulls s ! p) = r \<longrightarrow> pulls (step a s) ! p = pulls s ! p)
     \<and> (\<forall>j\<in>set (jobs (step a s)). j \<in> set (jobs s)
           \<or> (\<exists>q<length (pulls s). j = RaceFulfil q \<and> recipient (pulls s ! q) = r'))
     \<and> (length (events (step a s)) = Suc (length (events s)) \<longrightarrow>
          (\<forall>acts p. p < length (pulls (run acts (step a s))) \<longrightarrow>
             result (pulls (run acts (step a s)) ! p) = Fulfilled (length (events s)) \<longrightarrow>
             recipient (pulls (run acts (step a s)) ! p) = r'))"
proof -
  have w: "wf s" using assms(1) by (rule reachable_wf)
  have "recipient (pulls (run acts (step a s)) ! p) = r'"
    if "length (events (step a s)) = Suc (length (events s))"
      "p < length (pulls (run acts (step a s)))"
      "result (pulls (run acts (step a s)) ! p) = Fulfilled (length (events s))" for acts p
  proof -
    have "confined (length (events s)) r' (step a s)"
      using isolated_step(4) [OF w assms(2,3) that(1)] .
    then have "confined (length (events s)) r' (run acts (step a s))"
      using wf_step [OF w] by (intro confined_run)
    then show ?thesis using that(2,3) by (simp add: confined_def)
  qed
  then show ?thesis
    using isolated_step(1,2,3) [OF w assms(2,3)] by blast
qed

lemma suspended_eval:
  "queues (step (Emit (Str ''q'') ''e'' []) suspended) ''r'' = queues suspended ''r''"
  "pulls (step (Emit (Str ''q'') ''e'' []) suspended) ! 0 = pulls suspended ! 0"
  "recipient (pulls suspended ! 0) = ''r''" "race (pulls suspended ! 0) = Pending"
  "length (pulls suspended) = 1" "length (events suspended) = 0"
  "length (events (step (Emit (Str ''q'') ''e'' []) suspended)) = 1"
  by (simp_all add: suspended_def model_defs)

lemma suspended_run_eval:
  "result (pulls (run [Pull (Str ''q'') 10, Tick, Tick, Tick] (step (Emit (Str ''q'') ''e'' []) suspended)) ! 1)
     = Fulfilled 0"
  "length (pulls (run [Pull (Str ''q'') 10, Tick, Tick, Tick] (step (Emit (Str ''q'') ''e'' []) suspended))) = 2"
  by (simp_all add: suspended_def model_defs)

theorem emit_isolated_witness:
  "queues (step (Emit (Str ''q'') ''e'' []) suspended) ''r'' = queues suspended ''r''
   \<and> recipient (pulls suspended ! 0) = ''r''
   \<and> race (pulls (step (Emit (Str ''q'') ''e'' []) suspended) ! 0) = Pending
   \<and> result (pulls (run [Pull (Str ''q'') 10, Tick, Tick, Tick]
        (step (Emit (Str ''q'') ''e'' []) suspended)) ! 1) = Fulfilled 0
   \<and> recipient (pulls (run [Pull (Str ''q'') 10, Tick, Tick, Tick]
        (step (Emit (Str ''q'') ''e'' []) suspended)) ! 1) = ''q''"
proof -
  have 1: "reachable suspended"
    unfolding suspended_def using reachable.step [OF reachable.new, of "Pull (Str ''r'') 1000" no_overrides]
    by simp
  have 2: "emits_to ''q'' (Emit (Str ''q'') ''e'' [])" by simp
  have 3: "''r'' \<noteq> ''q''" by simp
  show ?thesis
    using emit_isolated [OF 1 2 3] suspended_eval suspended_run_eval
    by (auto simp del: step.simps)
qed

section \<open>Events are pulled in the order they were emitted\<close>

lemma servingD:
  assumes "serving P E n r m d t"
  shows "d \<le> m" "m \<le> n" "length (pulls t) = P + m"
    "\<And>i. i < m \<Longrightarrow> recipient (pulls t ! (P + i)) = r"
    "pending (stub_of t r) = map ((+) E) [d..<n]"
    "map job_pull (filter is_then (jobs t)) = map (\<lambda>i. Some (P + i)) [d..<m]"
    "\<And>j. j \<in> set (jobs t) \<Longrightarrow> is_then j \<or> is_cleanup j \<or> (\<exists>i<d. j = CatchSkip (P + i) (E + i))"
    "\<And>i. i < d \<Longrightarrow> result (pulls t ! (P + i)) = Fulfilled (E + i)
              \<or> CatchSkip (P + i) (E + i) \<in> set (jobs t)"
  using assms by (simp_all add: serving_def)

lemma pull_immediate:
  assumes "pending (stub_of s r) \<noteq> []" and "r \<noteq> []" and "\<not> shadowed s"
  shows "snd (pull (Str r) t s)
     = enqueue (ThenJob (length (pulls s)))
         (snd (new_pull r (ThenJob (length (pulls s))) (Fulfilled ()) (ensure_stub r s)))"
    and "snd (pull_v1 (Str r) t w s)
     = enqueue (ThenJob_v1 (length (pulls s)) w)
         (snd (new_pull r (ThenJob_v1 (length (pulls s)) w) (Fulfilled ()) (ensure_stub r s)))"
  using assms by (simp_all add: pull_def pull_v1_def Let_def case_prod_beta invalid_recipient_def)

lemma serving_new_pull:
  assumes s: "serving P E n r m d t" and m: "m < n" and f: "is_then f" "job_pull f = Some (P + m)"
  shows "serving P E n r (Suc m) d (enqueue f (snd (new_pull r f (Fulfilled ()) (ensure_stub r t))))"
proof -
  note D = servingD [OF s]
  let ?t = "enqueue f (snd (new_pull r f (Fulfilled ()) (ensure_stub r t)))"
  have len: "length (pulls t) = P + m" by (rule D(3))
  have rec: "recipient (pulls ?t ! (P + i)) = r" if "i < Suc m" for i
    using that D(4) [of i] len by (cases "i = m") (simp_all add: pulls_new_pull)
  have res: "result (pulls ?t ! (P + i)) = result (pulls t ! (P + i))" if "i < d" for i
    using that D(1) len by (simp add: pulls_new_pull)
  have up: "[d..<Suc m] = [d..<m] @ [m]" using D(1) by simp
  show ?thesis
    unfolding serving_def
  proof (intro conjI allI impI ballI)
    show "d \<le> Suc m" "Suc m \<le> n" using D(1) m by simp_all
    show "length (pulls ?t) = P + Suc m" using len by simp
    show "recipient (pulls ?t ! (P + i)) = r" if "i < Suc m" for i using that by (rule rec)
    show "pending (stub_of ?t r) = map ((+) E) [d..<n]" using D(5) by simp
    show "map job_pull (filter is_then (jobs ?t)) = map (\<lambda>i. Some (P + i)) [d..<Suc m]"
      using D(1,6) f by (simp add: up)
    show "is_then j \<or> is_cleanup j \<or> (\<exists>i<d. j = CatchSkip (P + i) (E + i))" if "j \<in> set (jobs ?t)" for j
      using that D(7) [of j] f by auto
    show "result (pulls ?t ! (P + i)) = Fulfilled (E + i) \<or> CatchSkip (P + i) (E + i) \<in> set (jobs ?t)"
      if "i < d" for i
      using D(8) [OF that] res [OF that] by auto
  qed
qed

lemma serving_pull:
  assumes s: "serving P E n r m d t" and m: "m < n" and a: "pulls_from r a" and r: "r \<noteq> []"
    and h: "\<not> shadowed t"
  shows "serving P E n r (Suc m) d (step a t)"
proof -
  note D = servingD [OF s]
  have ne: "pending (stub_of t r) \<noteq> []" using D(1,5) m by simp
  show ?thesis
  proof (cases a)
    case (Pull v to)
    then have v: "v = Str r" using a by simp
    show ?thesis
      using serving_new_pull [OF s m, of "ThenJob (length (pulls t))"] D(3)
      by (simp add: Pull v pull_immediate(1) [OF ne r h])
  next
    case (Pull_v1 v to w)
    then have v: "v = Str r" using a by simp
    show ?thesis
      using serving_new_pull [OF s m, of "ThenJob_v1 (length (pulls t)) w"] D(3)
      by (simp add: Pull_v1 v pull_immediate(2) [OF ne r h])
  qed (use a in simp_all)
qed


lemma serving_dequeue_then:
  assumes s: "serving P E n r m d t" and js: "jobs t = j # js" and j: "is_then j"
    and p: "pulls t' = pulls t"
    and q: "pending (stub_of t' r) = tl (pending (stub_of t r))"
    and c: "jobs t' = js @ cs @ [CatchSkip (P + d) (hd (pending (stub_of t r)))]"
    and cs: "\<forall>c\<in>set cs. is_cleanup c"
  shows "serving P E n r m (Suc d) t'"
proof -
  note D = servingD [OF s]
  have dm: "d < m" using D(6) js j by (cases "d < m") simp_all
  then have dn: "d < n" using D(2) by simp
  have up: "[d..<m] = d # [Suc d..<m]" "[d..<n] = d # [Suc d..<n]"
    using dm dn by (simp_all add: upt_conv_Cons)
  have hd: "hd (pending (stub_of t r)) = E + d" using D(5) by (simp add: up)
  have tl: "tl (pending (stub_of t r)) = map ((+) E) [Suc d..<n]" using D(5) by (simp add: up)
  have fl: "map job_pull (filter is_then js) = map (\<lambda>i. Some (P + i)) [Suc d..<m]"
    using D(6) js j by (simp add: up)
  have nt: "filter is_then cs = []" using cs by (induction cs) (auto elim: is_cleanup.elims)
  show ?thesis
    unfolding serving_def
  proof (intro conjI allI impI ballI)
    show "Suc d \<le> m" "m \<le> n" using dm D(2) by simp_all
    show "length (pulls t') = P + m" using D(3) p by simp
    show "recipient (pulls t' ! (P + i)) = r" if "i < m" for i using D(4) [OF that] p by simp
    show "pending (stub_of t' r) = map ((+) E) [Suc d..<n]" using q tl by simp
    show "map job_pull (filter is_then (jobs t')) = map (\<lambda>i. Some (P + i)) [Suc d..<m]"
      using fl nt by (simp add: c)
    show "is_then x \<or> is_cleanup x \<or> (\<exists>i<Suc d. x = CatchSkip (P + i) (E + i))"
      if x: "x \<in> set (jobs t')" for x
    proof -
      consider "x \<in> set js" | "x \<in> set cs" | "x = CatchSkip (P + d) (E + d)"
        using x by (auto simp: c hd)
      then show ?thesis
      proof cases
        case 1
        then show ?thesis using D(7) [of x] js less_Suc_eq by auto
      next
        case 2
        then show ?thesis using cs by simp
      next
        case 3
        then show ?thesis by auto
      qed
    qed
    show "result (pulls t' ! (P + i)) = Fulfilled (E + i) \<or> CatchSkip (P + i) (E + i) \<in> set (jobs t')"
      if "i < Suc d" for i
    proof (cases "i = d")
      case True
      then show ?thesis by (simp add: c hd)
    next
      case False
      then have i: "i < d" using that by simp
      have "CatchSkip (P + i) (E + i) \<noteq> j" using j by auto
      then show ?thesis using D(8) [OF i] js by (auto simp: p c)
    qed
  qed
qed

lemma serving_dequeue_same:
  assumes s: "serving P E n r m d t" and js: "jobs t = j # js" and j: "\<not> is_then j"
    and p: "length (pulls t') = length (pulls t)"
        "\<And>i. i < m \<Longrightarrow> recipient (pulls t' ! (P + i)) = recipient (pulls t ! (P + i))"
    and q: "pending (stub_of t' r) = pending (stub_of t r)"
    and c: "jobs t' = js @ cs"
    and cs: "\<forall>c\<in>set cs. is_cleanup c"
    and rs: "\<And>i. i < d \<Longrightarrow>
               (result (pulls t' ! (P + i)) = result (pulls t ! (P + i)) \<and> j \<noteq> CatchSkip (P + i) (E + i))
               \<or> (j = CatchSkip (P + i) (E + i) \<and> result (pulls t' ! (P + i)) = Fulfilled (E + i))"
  shows "serving P E n r m d t'"
proof -
  note D = servingD [OF s]
  have nt: "filter is_then cs = []" using cs by (induction cs) (auto elim: is_cleanup.elims)
  show ?thesis
    unfolding serving_def
  proof (intro conjI allI impI ballI)
    show "d \<le> m" "m \<le> n" using D(1,2) by simp_all
    show "length (pulls t') = P + m" using D(3) p by simp
    show "recipient (pulls t' ! (P + i)) = r" if "i < m" for i using D(4) [OF that] p(2) [OF that] by simp
    show "pending (stub_of t' r) = map ((+) E) [d..<n]" using q D(5) by simp
    show "map job_pull (filter is_then (jobs t')) = map (\<lambda>i. Some (P + i)) [d..<m]"
      using D(6) js j nt by (simp add: c)
    show "is_then x \<or> is_cleanup x \<or> (\<exists>i<d. x = CatchSkip (P + i) (E + i))"
      if "x \<in> set (jobs t')" for x
      using that D(7) [of x] js cs by (auto simp: c)
    show "result (pulls t' ! (P + i)) = Fulfilled (E + i) \<or> CatchSkip (P + i) (E + i) \<in> set (jobs t')"
      if "i < d" for i
      using D(8) [OF that] rs [OF that] js by (auto simp: c)
  qed
qed

lemma serving_tick:
  assumes s: "serving P E n r m d t"
  shows "\<exists>d'. serving P E n r m d' (tick t)"
proof (cases "jobs t")
  case Nil
  then show ?thesis using s by (auto simp: tick_def)
next
  case (Cons j js)
  note D = servingD [OF s]
  let ?t0 = "t\<lparr>jobs := js\<rparr>"
  have tk: "tick t = run_job j ?t0" using Cons by (simp add: tick_def)
  consider (a) "is_then j" | (b) "is_cleanup j" | (c) i where "i < d" "j = CatchSkip (P + i) (E + i)"
    using D(7) [of j] Cons by auto
  then show ?thesis
  proof cases
    case a
    have dm: "d < m" using D(6) Cons a by (cases "d < m") simp_all
    then have dn: "d < n" using D(2) by simp
    have up: "[d..<m] = d # [Suc d..<m]" "[d..<n] = d # [Suc d..<n]"
      using dm dn by (simp_all add: upt_conv_Cons)
    have jp: "job_pull j = Some (P + d)" using D(6) Cons a by (simp add: up)
    have rc: "recipient (pulls ?t0 ! (P + d)) = r" using D(4) [OF dm] by simp
    have pd: "pending (stub_of ?t0 r) = (E + d) # map ((+) E) [Suc d..<n]"
      using D(5) by (simp add: up)
    have pd': "pending (stub_of ?t0 (recipient (pulls ?t0 ! (P + d)))) = (E + d) # map ((+) E) [Suc d..<n]"
      using pd rc by simp
    have np: "r \<noteq> proto" using nonempty_not_proto [OF pd] .
    have "serving P E n r m (Suc d) (run_job j ?t0)"
    proof (cases j)
      case (ThenJob q)
      then have q: "q = P + d" using jp by simp
      let ?u = "track r (E + d) (upd_stub r (\<lambda>st. st\<lparr>pending := map ((+) E) [Suc d..<n]\<rparr>)
               (upd_stub r (\<lambda>st. st\<lparr>waitingSoNotify := None\<rparr>) ?t0))"
      obtain cs where e: "jobs (event_emit (E + d) Pulled Undefined ?u) = jobs ?u @ cs"
          "\<forall>j\<in>set cs. \<exists>k. j = CleanupCatch k"
        using jobs_event_emit by blast
      have cs: "jobs (pull_then q ?t0) = js @ cs @ [CatchSkip q (E + d)]" "\<forall>c\<in>set cs. is_cleanup c"
        using e unfolding q pull_then_Cons [OF pd'] rc by auto
      show ?thesis
        unfolding ThenJob run_job.simps
      proof (rule serving_dequeue_then [OF s Cons a _ _ _ cs(2)])
        show "pulls (pull_then q ?t0) = pulls t"
          unfolding q pull_then_Cons [OF pd'] rc by simp
        show "pending (stub_of (pull_then q ?t0) r) = tl (pending (stub_of t r))"
          unfolding q pull_then_Cons [OF pd'] rc using pd np by simp
        show "jobs (pull_then q ?t0) = js @ cs @ [CatchSkip (P + d) (hd (pending (stub_of t r)))]"
          using cs(1) pd q by simp
      qed
    next
      case (ThenJob_v1 q w)
      then have q: "q = P + d" using jp by simp
      let ?u = "upd_stub r (\<lambda>st. st\<lparr>active := (if w then (active st)(E + d \<mapsto> E + d) else active st)\<rparr>)
             (upd_stub r (\<lambda>st. st\<lparr>pending := map ((+) E) [Suc d..<n]\<rparr>)
               (upd_stub r (\<lambda>st. st\<lparr>waitingSoNotify := None\<rparr>) ?t0))"
      obtain cs where e: "jobs (event_emit (E + d) Fetched Undefined ?u) = jobs ?u @ cs"
          "\<forall>j\<in>set cs. \<exists>k. j = CleanupCatch k"
        using jobs_event_emit by blast
      have cs: "jobs (pull_then_v1 q w ?t0) = js @ cs @ [CatchSkip q (E + d)]" "\<forall>c\<in>set cs. is_cleanup c"
        using e unfolding q pull_then_v1_Cons [OF pd'] rc by auto
      show ?thesis
        unfolding ThenJob_v1 run_job.simps
      proof (rule serving_dequeue_then [OF s Cons a _ _ _ cs(2)])
        show "pulls (pull_then_v1 q w ?t0) = pulls t"
          unfolding q pull_then_v1_Cons [OF pd'] rc by simp
        show "pending (stub_of (pull_then_v1 q w ?t0) r) = tl (pending (stub_of t r))"
          unfolding q pull_then_v1_Cons [OF pd'] rc using pd np by simp
        show "jobs (pull_then_v1 q w ?t0) = js @ cs @ [CatchSkip (P + d) (hd (pending (stub_of t r)))]"
          using cs(1) pd q by simp
      qed
    qed (use a in simp_all)
    then show ?thesis using tk by auto
  next
    case b
    then have nt: "\<not> is_then j" by (cases j) simp_all
    have "serving P E n r m d (run_job j ?t0)"
    proof (cases j)
      case (CleanupCatch k)
      show ?thesis
        by (rule serving_dequeue_same [OF s Cons nt, where cs = "[CleanupThen k]"])
           (simp_all add: CleanupCatch enqueue_def)
    next
      case (CleanupThen k)
      show ?thesis
        by (rule serving_dequeue_same [OF s Cons nt, where cs = "[]"])
           (simp_all add: CleanupThen)
    qed (use b in simp_all)
    then show ?thesis using tk by auto
  next
    case c
    have nt: "\<not> is_then j" using c by simp
    have len: "P + i < length (pulls t)" using c(1) D(1,3) by simp
    have "serving P E n r m d (run_job j ?t0)"
    proof (rule serving_dequeue_same [OF s Cons nt, where cs = "[]"])
      show "length (pulls (run_job j ?t0)) = length (pulls t)" by (simp add: c)
      show "recipient (pulls (run_job j ?t0) ! (P + x)) = recipient (pulls t ! (P + x))" for x
        using len by (cases "x = i") (simp_all add: c pulls_upd_pull)
      show "pending (stub_of (run_job j ?t0) r) = pending (stub_of t r)" by (simp add: c)
      show "jobs (run_job j ?t0) = js @ []" by (simp add: c)
      show "\<forall>c\<in>set []. is_cleanup c" by simp
      show "(result (pulls (run_job j ?t0) ! (P + x)) = result (pulls t ! (P + x))
                 \<and> j \<noteq> CatchSkip (P + x) (E + x))
               \<or> (j = CatchSkip (P + x) (E + x) \<and> result (pulls (run_job j ?t0) ! (P + x)) = Fulfilled (E + x))"
        for x
        using len by (cases "x = i") (simp_all add: c pulls_upd_pull)
    qed
    then show ?thesis using tk by auto
  qed
qed

lemma payload_update [simp]:
  "payload (ev\<lparr>listeners := l\<rparr>) = payload ev" "payload (ev\<lparr>promise := pr\<rparr>) = payload ev"
  "payload (ev\<lparr>cleanup := c\<rparr>) = payload ev" "payload (ev\<lparr>pendingTimer := pt\<rparr>) = payload ev"
  "payload (ev\<lparr>handlingTimer := ht\<rparr>) = payload ev"
  by (simp_all add: payload_def)

lemma payload_upd_event:
  "(\<And>ev. payload (f ev) = payload ev) \<Longrightarrow>
   payload (events (upd_event k f s) ! i) = payload (events s ! i)"
  by (simp add: events_upd_event)

lemma payload_settle [simp]: "payload (events (settle k outcome s) ! i) = payload (events s ! i)"
  by (simp add: events_settle)

lemma payload_event_once [simp]: "payload (events (event_once k sig l s) ! i) = payload (events s ! i)"
  by (simp add: events_event_once)

lemma payload_run_listener [simp]: "payload (events (run_listener v l s) ! i) = payload (events s ! i)"
  by (cases l) (simp_all add: case_prod_beta payload_upd_event)

lemma payload_fold_run_listener [simp]:
  "payload (events (fold (run_listener v) ls s) ! i) = payload (events s ! i)"
  by (induction ls arbitrary: s) simp_all

lemma payload_event_emit [simp]: "payload (events (event_emit k sig v s) ! i) = payload (events s ! i)"
  by (simp add: event_emit_def payload_upd_event)

lemma payload_promise_executor [simp]:
  "payload (events (promise_executor k sig opts s) ! i) = payload (events s ! i)"
  by (simp add: promise_executor_def Let_def case_prod_beta payload_upd_event)

lemma payload_emitWithOptions:
  "i < length (events s) \<Longrightarrow>
   payload (events (snd (emitWithOptions recipientId n a ov s)) ! i) = payload (events s ! i)"
  by (simp add: emitWithOptions_def Let_def case_prod_beta payload_upd_event events_new_Event)

lemma payload_emit_v1:
  "i < length (events s) \<Longrightarrow>
   payload (events (snd (emit_v1 recipientId n a s)) ! i) = payload (events s ! i)"
  by (simp add: emit_v1_def Let_def case_prod_beta events_new_Event)

lemma payload_track [simp]: "payload (events (track r k s) ! i) = payload (events s ! i)"
  by (simp add: track_def)

lemma payload_pull [simp]:
  "events (snd (pull recipientId t s)) = events s"
  "events (snd (pull_v1 recipientId t w s)) = events s"
  by (simp_all add: pull_def pull_v1_def Let_def case_prod_beta setTimeout_def)

lemma payload_pull_then [simp]:
  "payload (events (pull_then p s) ! i) = payload (events s ! i)"
  "payload (events (pull_then_v1 p w s) ! i) = payload (events s ! i)"
  by (simp_all add: pull_then_def pull_then_v1_def Let_def split: list.splits)

lemma payload_run_job [simp]: "payload (events (run_job j s) ! i) = payload (events s ! i)"
  by (cases j) (simp_all add: pull_catch_def Let_def)

lemma payload_tick [simp]: "payload (events (tick s) ! i) = payload (events s ! i)"
  by (simp add: tick_def split: list.splits)

lemma payload_fire [simp]: "payload (events (fire h s) ! i) = payload (events s ! i)"
proof (cases "callback (timers s ! h)")
  case (OnTimeout k m)
  then show ?thesis by (simp add: fire_def set_status_def)
next
  case (RejectRace p e)
  then show ?thesis by (simp add: fire_def set_status_def)
qed

lemma payload_step:
  "i < length (events s) \<Longrightarrow> payload (events (step a s) ! i) = payload (events s ! i)"
  by (cases a) (simp_all add: emit_def emitAndWait_def payload_emitWithOptions payload_emit_v1 signal_def)

lemma length_events_tick [simp]: "length (events (tick s)) = length (events s)"
proof (cases "jobs s")
  case Nil
  then show ?thesis by (simp add: tick_def)
next
  case (Cons j js)
  have "length (events (run_job j t)) = length (events t)" for t
    by (cases j) (simp_all add: pull_catch_def pull_then_def pull_then_v1_def Let_def split: list.splits)
  then show ?thesis using Cons by (simp add: tick_def)
qed

lemma length_events_step: "length (events s) \<le> length (events (step a s))"
proof (cases a)
  case (Fire h)
  show ?thesis by (cases "callback (timers s ! h)") (simp_all add: Fire fire_def set_status_def)
qed (simp_all add: emit_def emitAndWait_def emitWithOptions_events emit_v1_events signal_def)

lemma payload_run:
  "i < length (events s) \<Longrightarrow>
   i < length (events (run acts s)) \<and> payload (events (run acts s) ! i) = payload (events s ! i)"
proof (induction acts arbitrary: s)
  case Nil
  then show ?case by (simp add: run_def)
next
  case (Cons a acts)
  have "i < length (events (step a s))" using Cons.prems length_events_step [of s a] by simp
  then show ?case using Cons.IH [of "step a s"] Cons.prems by (simp add: run_def payload_step)
qed

lemma payload_drain: "payload (events (drain s) ! i) = payload (events s ! i)"
  by (induction s rule: drain.induct) (simp add: drain.simps)

lemma notify_None: "waitingSoNotify (stub_of s r) = None \<Longrightarrow> notify r s = s"
  by (simp add: notify_def)

lemma emitWithOptions_quiet:
  assumes "r \<noteq> []" and "waitingSoNotify (stub_of s r) = None"
    and "enat (length (pending (stub_of s r))) < maxPendingEvents (options s)"
    and "r \<noteq> proto" and "\<not> shadowed s"
  shows "jobs (snd (emitWithOptions (Str r) n a ov s)) = jobs s"
    and "pulls (snd (emitWithOptions (Str r) n a ov s)) = pulls s"
    and "waitingSoNotify (stub_of (snd (emitWithOptions (Str r) n a ov s)) r) = None"
    and "pending (stub_of (snd (emitWithOptions (Str r) n a ov s)) r) = pending (stub_of s r) @ [length (events s)]"
    and "length (events (snd (emitWithOptions (Str r) n a ov s))) = Suc (length (events s))"
    and "options (snd (emitWithOptions (Str r) n a ov s)) = options s"
    and "payload (events (snd (emitWithOptions (Str r) n a ov s)) ! length (events s)) = (n, a)"
  using assms
  by (simp_all add: emitWithOptions_def Let_def case_prod_beta invalid_recipient_def notify_None
      payload_upd_event events_new_Event not_le [symmetric] payload_def [of "\<lparr>e_name = _, e_arguments = _, e_options = _, listeners = _, promise = _, cleanup = _, pendingTimer = _, handlingTimer = _\<rparr>"])

lemma emit_v1_quiet:
  assumes "r \<noteq> []" and "waitingSoNotify (stub_of s r) = None"
    and "r \<noteq> proto" and "\<not> shadowed s"
  shows "jobs (snd (emit_v1 (Str r) n a s)) = jobs s"
    and "pulls (snd (emit_v1 (Str r) n a s)) = pulls s"
    and "waitingSoNotify (stub_of (snd (emit_v1 (Str r) n a s)) r) = None"
    and "pending (stub_of (snd (emit_v1 (Str r) n a s)) r) = pending (stub_of s r) @ [length (events s)]"
    and "length (events (snd (emit_v1 (Str r) n a s))) = Suc (length (events s))"
    and "options (snd (emit_v1 (Str r) n a s)) = options s"
    and "payload (events (snd (emit_v1 (Str r) n a s)) ! length (events s)) = (n, a)"
  using assms
  by (simp_all add: emit_v1_def Let_def case_prod_beta invalid_recipient_def notify_None
      events_new_Event payload_def [of "\<lparr>e_name = _, e_arguments = _, e_options = _, listeners = _, promise = _, cleanup = _, pendingTimer = _, handlingTimer = _\<rparr>"])

lemma emit_quiet:
  assumes "r \<noteq> []" and "waitingSoNotify (stub_of s r) = None"
    and "enat (length (pending (stub_of s r))) < maxPendingEvents (options s)"
    and "emits_to r x" and "r \<noteq> proto" and "\<not> shadowed s"
  shows "jobs (step x s) = jobs s"
    and "pulls (step x s) = pulls s"
    and "waitingSoNotify (stub_of (step x s) r) = None"
    and "pending (stub_of (step x s) r) = pending (stub_of s r) @ [length (events s)]"
    and "length (events (step x s)) = Suc (length (events s))"
    and "options (step x s) = options s"
    and "payload (events (step x s) ! length (events s)) = emitted x"
  using assms(4) emitWithOptions_quiet [OF assms(1-3) assms(5,6)] emit_v1_quiet [OF assms(1,2) assms(5,6)]
  by (cases x; simp add: emit_def emitAndWait_def)+

lemma pull_other_queue:
  assumes "r \<noteq> key_of recipientId"
  shows "queues (snd (pull recipientId t s)) r = queues s r"
    and "queues (snd (pull_v1 recipientId t w s)) r = queues s r"
  using assms by (simp_all add: pull_def pull_v1_def Let_def case_prod_beta queues_ensure_stub)

lemma shadowed_step:
  assumes "emits_to r a \<or> pulls_from r a" and "r \<noteq> ''hasOwnProperty''"
  shows "shadowed (step a s) = shadowed s"
  using assms
  by (cases a)
    (simp_all add: shadowed_def emit_def emitAndWait_def emitWithOptions_other_queue
      emit_v1_other_queue pull_other_queue)

lemma emit_phase:
  assumes "r \<noteq> []" and "jobs s = []" and "waitingSoNotify (stub_of s r) = None"
    and "\<forall>x\<in>set es. emits_to r x"
    and "enat (length (pending (stub_of s r)) + length es) \<le> maxPendingEvents (options s)"
    and "r \<noteq> proto" and "r \<noteq> ''hasOwnProperty''" and "\<not> shadowed s"
  shows "jobs (run es s) = [] \<and> pulls (run es s) = pulls s
    \<and> pending (stub_of (run es s) r)
        = pending (stub_of s r) @ map ((+) (length (events s))) [0..<length es]
    \<and> length (events (run es s)) = length (events s) + length es
    \<and> (\<forall>i<length es. payload (events (run es s) ! (length (events s) + i)) = emitted (es ! i))
    \<and> \<not> shadowed (run es s)"
  using assms
proof (induction es arbitrary: s)
  case Nil
  then show ?case by (simp add: run_def)
next
  case (Cons x es)
  let ?t = "step x s"
  have lt: "enat (length (pending (stub_of s r))) < maxPendingEvents (options s)"
    using Cons.prems(5) by (cases "maxPendingEvents (options s)") simp_all
  have x: "emits_to r x" using Cons.prems(4) by simp
  note Q = emit_quiet [OF Cons.prems(1,3) lt x Cons.prems(6,8)]
  have sh: "\<not> shadowed ?t" using shadowed_step [of r x s] x Cons.prems(7,8) by simp
  have cap: "enat (length (pending (stub_of ?t r)) + length es) \<le> maxPendingEvents (options ?t)"
    using Cons.prems(5) by (simp add: Q)
  have IH: "jobs (run es ?t) = [] \<and> pulls (run es ?t) = pulls ?t
    \<and> pending (stub_of (run es ?t) r)
        = pending (stub_of ?t r) @ map ((+) (length (events ?t))) [0..<length es]
    \<and> length (events (run es ?t)) = length (events ?t) + length es
    \<and> (\<forall>i<length es. payload (events (run es ?t) ! (length (events ?t) + i)) = emitted (es ! i))
    \<and> \<not> shadowed (run es ?t)"
    using Cons.prems(2,4)
    by (intro Cons.IH [OF Cons.prems(1) _ Q(3) _ cap Cons.prems(6,7) sh]) (simp_all add: Q)
  have r: "run (x # es) s = run es ?t" by (simp add: run_def)
  have m: "map ((+) (length (events s))) [0..<Suc (length es)]
      = length (events s) # map ((+) (Suc (length (events s)))) [0..<length es]"
    by (simp add: upt_conv_Cons map_Suc_upt [symmetric] del: upt_Suc)
  have p0: "payload (events (run es ?t) ! length (events s)) = emitted x"
    using payload_run [of "length (events s)" ?t es] Q(5,7) by simp
  show ?case
    unfolding r
  proof (intro conjI allI impI)
    show "jobs (run es ?t) = []" using IH by simp
    show "pulls (run es ?t) = pulls s" using IH Q(2) by simp
    show "pending (stub_of (run es ?t) r)
        = pending (stub_of s r) @ map ((+) (length (events s))) [0..<length (x # es)]"
      using IH Q(4,5) m by simp
    show "length (events (run es ?t)) = length (events s) + length (x # es)" using IH Q(5) by simp
    show "payload (events (run es ?t) ! (length (events s) + i)) = emitted ((x # es) ! i)"
      if "i < length (x # es)" for i
    proof (cases i)
      case 0
      then show ?thesis using p0 by simp
    next
      case (Suc i')
      then show ?thesis using IH that Q(5) by simp
    qed
    show "\<not> shadowed (run es ?t)" using IH by simp
  qed
qed

lemma serving_run:
  assumes "serving P E n r m d t" and "r \<noteq> []"
    and "\<forall>x\<in>set ps. pulls_from r x"
    and "m + length ps \<le> n"
    and "r \<noteq> ''hasOwnProperty''" and "\<not> shadowed t"
  shows "serving P E n r (m + length ps) d (run ps t)"
  using assms
proof (induction ps arbitrary: m t)
  case Nil
  then show ?case by (simp add: run_def)
next
  case (Cons x ps)
  have r: "run (x # ps) t = run ps (step x t)" by (simp add: run_def)
  have x: "pulls_from r x" using Cons.prems(3) by simp
  have "m < n" using Cons.prems(4) by simp
  then have 1: "serving P E n r (Suc m) d (step x t)"
    using serving_pull [OF Cons.prems(1) _ x Cons.prems(2,6)] by simp
  have 2: "\<not> shadowed (step x t)" using shadowed_step [of r x t] x Cons.prems(5,6) by simp
  show ?case
    unfolding r using Cons.IH [OF 1 Cons.prems(2) _ _ Cons.prems(5) 2] Cons.prems(3,4) by simp
qed

lemma serving_drain:
  "serving P E n r m d t \<Longrightarrow> \<exists>d'. serving P E n r m d' (drain t)"
proof (induction t arbitrary: d rule: drain.induct)
  case (1 s)
  show ?case
  proof (cases "jobs s = []")
    case True
    then show ?thesis using 1(2) by (auto simp: drain.simps [of s])
  next
    case False
    obtain d' where "serving P E n r m d' (tick s)" using serving_tick [OF 1(2)] by auto
    then show ?thesis using 1(1) [OF False] False by (simp add: drain.simps [of s])
  qed
qed

lemma serving_done:
  assumes "serving P E n r n d t" and "jobs t = []" and "i < n"
  shows "result (pulls t ! (P + i)) = Fulfilled (E + i)"
proof -
  note D = servingD [OF assms(1)]
  have "[d..<n] = []" using D(6) assms(2) by simp
  then have "d = n" using D(1) by auto
  then show ?thesis using D(8) [of i] assms(2,3) by simp
qed

lemma served_in_order:
  assumes "jobs s = []" and "r \<noteq> []"
    and "pending (stub_of s r) = []" and "waitingSoNotify (stub_of s r) = None"
    and "\<forall>x\<in>set es. emits_to r x" and "enat (length es) \<le> maxPendingEvents (options s)"
    and "\<forall>x\<in>set ps. pulls_from r x"
    and "length ps = length es"
    and "i < length es"
    and "r \<noteq> proto" and "r \<noteq> ''hasOwnProperty''" and "\<not> shadowed s"
  shows "result (pulls (drain (run (es @ ps) s)) ! (length (pulls s) + i)) = Fulfilled (length (events s) + i)"
    and "payload (events (drain (run (es @ ps) s)) ! (length (events s) + i)) = emitted (es ! i)"
proof -
  let ?s1 = "run es s"
  let ?n = "length es"
  have E: "jobs ?s1 = [] \<and> pulls ?s1 = pulls s
    \<and> pending (stub_of ?s1 r) = pending (stub_of s r) @ map ((+) (length (events s))) [0..<?n]
    \<and> length (events ?s1) = length (events s) + ?n
    \<and> (\<forall>i<?n. payload (events ?s1 ! (length (events s) + i)) = emitted (es ! i))
    \<and> \<not> shadowed ?s1"
    using assms(6) by (intro emit_phase [OF assms(2,1,4,5) _ assms(10,11,12)]) (simp add: assms(3))
  have s0: "serving (length (pulls s)) (length (events s)) ?n r 0 0 ?s1"
    using E assms(3) by (simp add: serving_def)
  have rn: "run (es @ ps) s = run ps ?s1" by (simp add: run_def)
  have "serving (length (pulls s)) (length (events s)) ?n r ?n 0 (run ps ?s1)"
    using serving_run [OF s0 assms(2,7) _ assms(11)] assms(8) E by simp
  then obtain d' where d': "serving (length (pulls s)) (length (events s)) ?n r ?n d' (drain (run ps ?s1))"
    using serving_drain by blast
  show "result (pulls (drain (run (es @ ps) s)) ! (length (pulls s) + i)) = Fulfilled (length (events s) + i)"
    unfolding rn by (rule serving_done [OF d' drain_empty assms(9)])
  have "length (events s) + i < length (events ?s1)" using E assms(9) by simp
  then show "payload (events (drain (run (es @ ps) s)) ! (length (events s) + i)) = emitted (es ! i)"
    unfolding rn using payload_run [of "length (events s) + i" ?s1 ps] E assms(9)
    by (simp add: payload_drain)
qed

text \<open>
  First in, first out for one recipient, for a recipient id other than \<^verbatim>\<open>"__proto__"\<close> and
  \<^verbatim>\<open>"hasOwnProperty"\<close> on a pool whose \<open>hasOwnProperty\<close> is not shadowed. Take such a pool with no
  promise job left in which recipient \<open>r\<close> has no pending record and no waiting pull. Let
  \<open>es\<close> be emit calls for \<open>r\<close> (of either revision, with any name, arguments and per-call
  options), no more of them than \<open>maxPendingEvents\<close> of the pool, so that each is accepted,
  and let them be followed by as many pull calls for \<open>r\<close>. Once the promise jobs have run, the
  \<open>i\<close>-th of these pull calls has resolved to the record that the \<open>i\<close>-th emit call created,
  which carries the name and the arguments of that emit call.
\<close>

lemma pulls_resolve_in_emit_order:
  assumes "jobs s = []" and "r \<noteq> []"
    and "pending (stub_of s r) = []" and "waitingSoNotify (stub_of s r) = None"
    and "\<forall>x\<in>set es. emits_to r x" and "enat (length es) \<le> maxPendingEvents (options s)"
    and "\<forall>x\<in>set ps. pulls_from r x"
    and "length ps = length es"
    and "i < length es"
    and "r \<noteq> proto" and "r \<noteq> ''hasOwnProperty''" and "\<not> shadowed s"
  shows "result (pulls (drain (run (es @ ps) s)) ! (length (pulls s) + i))
           = Fulfilled (length (events s) + i)
       \<and> payload (events (drain (run (es @ ps) s)) ! (length (events s) + i)) = emitted (es ! i)"
  using served_in_order [OF assms] by simp

text \<open>
  C1 on the code, for the recipient id \<^verbatim>\<open>"__proto__"\<close>: on a new pool with the default options,
  \<^verbatim>\<open>emit( "__proto__", "first" )\<close>, \<^verbatim>\<open>emit( "__proto__", "second" )\<close> and two calls of
  \<^verbatim>\<open>pull( "__proto__" )\<close> are accepted and make the records 0 and 1 and the pull calls 0 and
  1. When the promise jobs have run, neither pull has resolved, no promise of an emit has
  resolved, and \<open>queues\<close> has no own property for the recipient: each call has worked on a stub
  of its own and the records are lost. The pulls end with the timeout error when their
  timers fire.
\<close>

theorem records_lost_at_proto:
  "fst (emit (Str ''__proto__'') ''first'' [] (EventPool no_overrides)) = EmitPromise 0
   \<and> length (events lost) = 2 \<and> length (pulls lost) = 2
   \<and> result (pulls lost ! 0) = Pending \<and> result (pulls lost ! 1) = Pending
   \<and> promise (events lost ! 0) = Pending \<and> promise (events lost ! 1) = Pending
   \<and> queues lost ''__proto__'' = None
   \<and> result (pulls (drain (fire 1 (drain (fire 0 lost)))) ! 0)
        = Rejected (TimeoutError ''timeout on waiting for event'')
   \<and> result (pulls (drain (fire 1 (drain (fire 0 lost)))) ! 1)
        = Rejected (TimeoutError ''timeout on waiting for event'')"
  by (simp add: lost_def model_defs drain.simps)

section \<open>The race of a pull\<close>










lemma pulls_pull_then [simp]:
  "pulls (pull_then q s) = pulls s" "pulls (pull_then_v1 q b s) = pulls s"
  by (simp_all add: pull_then_def pull_then_v1_def Let_def event_waitForHandlers_def split: list.splits)
















section \<open>The timers of an emit\<close>

lemma unpulled_eval:
  "fst (emitAndWait (Str ''r'') ''e'' [] (EventPool impatient)) = EmitPromise 0"
  "timers (snd (emitAndWait (Str ''r'') ''e'' [] (EventPool impatient)))
     = [\<lparr>callback = OnTimeout 0 ''pending event timed out'', delay = 50, status = Armed\<rparr>]"
  "promise (events unpulled ! 0) = Rejected (ETIMEDOUT ''pending event timed out'')"
  "pending (stub_of unpulled ''r'') = [0]"
  "result (pulls (drain (snd (pull (Str ''r'') 1000 unpulled))) ! 0) = Fulfilled 0"
  "status (timers (drain (snd (pull (Str ''r'') 1000 unpulled))) ! 1) = Armed"
  by (simp_all add: unpulled_def impatient_def model_defs drain.simps zero_enat_def)

lemma leaked_eval:
  "callback (timers leaked ! 1) = OnTimeout 0 ''event handling timed otu''"
  "status (timers leaked ! 1) = Armed"
  "promise (events leaked ! 0) = Rejected (ETIMEDOUT ''pending event timed out'')"
  "promise (events (drain (fire 1 leaked)) ! 0) = Rejected (ETIMEDOUT ''pending event timed out'')"
  by (simp_all add: leaked_def unpulled_def impatient_def model_defs drain.simps zero_enat_def)

text \<open>
  C6 on the code. A pool is made with \<^verbatim>\<open>{ pendingTimeout: 50, handlingTimeout: 50 }\<close> and
  \<^verbatim>\<open>emitAndWait( "r", "e" )\<close> makes record 0 and arms the pending timer, timer 0. No pull comes
  and the timer fires: the promise of the emit is rejected with the timeout error and the
  record stays in the pending queue. Then \<^verbatim>\<open>pull( "r" )\<close> delivers the record; the listener
  of \<open>pulled\<close> is still registered and arms the handling timer, timer 1, though the emitter
  waits no more. When \<open>handled\<close> is signalled, the timer is not cancelled: the clean-up that
  \<open>emitWithOptions\<close> chains to its promise ran when the promise was rejected, before the
  timer was made. The timer is armed after the promise jobs have run, and its firing
  rejects nothing: the promise keeps the error of the pending timer.
\<close>

theorem handling_timer_leaked:
  "fst (emitAndWait (Str ''r'') ''e'' [] (EventPool impatient)) = EmitPromise 0
   \<and> promise (events unpulled ! 0) = Rejected (ETIMEDOUT ''pending event timed out'')
   \<and> pending (stub_of unpulled ''r'') = [0]
   \<and> result (pulls (drain (snd (pull (Str ''r'') 1000 unpulled))) ! 0) = Fulfilled 0
   \<and> status (timers (drain (snd (pull (Str ''r'') 1000 unpulled))) ! 1) = Armed
   \<and> callback (timers leaked ! 1) = OnTimeout 0 ''event handling timed otu''
   \<and> status (timers leaked ! 1) = Armed
   \<and> promise (events (drain (fire 1 leaked)) ! 0) = Rejected (ETIMEDOUT ''pending event timed out'')"
  using unpulled_eval leaked_eval by simp

section \<open>The records a stub holds in \<open>active\<close>\<close>

lemma listeners_run_listener [simp]:
  "listeners (events (run_listener v l s) ! i) = listeners (events s ! i)"
  by (cases l) (simp_all add: events_settle events_upd_event case_prod_beta)

lemma listeners_fold_run_listener [simp]:
  "listeners (events (fold (run_listener v) ls s) ! i) = listeners (events s ! i)"
  by (induction ls arbitrary: s) simp_all

lemma listeners_event_emit:
  "listeners (events (event_emit k' sg v s) ! i)
     = (if i = k' \<and> k' < length (events s) then (listeners (events s ! i))(sg := [])
        else listeners (events s ! i))"
  by (simp add: event_emit_def events_upd_event)

lemma e_options_run_listener [simp]:
  "e_options (events (run_listener v l s) ! i) = e_options (events s ! i)"
  by (cases l) (simp_all add: events_settle events_upd_event case_prod_beta)

lemma e_options_fold_run_listener [simp]:
  "e_options (events (fold (run_listener v) ls s) ! i) = e_options (events s ! i)"
  by (induction ls arbitrary: s) simp_all

lemma e_options_event_emit [simp]:
  "e_options (events (event_emit k' sg v s) ! i) = e_options (events s ! i)"
  by (simp add: event_emit_def events_upd_event)

lemma active_run_listener:
  "active (stub_of (run_listener v l s) r) k
     = (if l = ActiveDelete r k then None else active (stub_of s r) k)"
  by (cases l) (auto simp: case_prod_beta)

lemma active_fold_run_listener:
  "active (stub_of (fold (run_listener v) ls s) r) k
     = (if ActiveDelete r k \<in> set ls then None else active (stub_of s r) k)"
proof (induction ls arbitrary: s)
  case Nil
  then show ?case by simp
next
  case (Cons l ls)
  then show ?case by (simp add: active_run_listener)
qed

lemma active_event_emit:
  "active (stub_of (event_emit k' sg v s) r) k
     = (if ActiveDelete r k \<in> set (listeners (events s ! k') sg) then None
        else active (stub_of s r) k)"
  by (simp add: event_emit_def active_fold_run_listener)

text \<open>
  A step that takes no record from a pending queue, appends at most the record it has
  just made to the queue of one recipient, leaves the options of the records and the
  listeners that take records off \<open>active\<close> as they are, and puts nothing into \<open>active\<close>.
\<close>

lemma tracking_frame:
  assumes t: "tracking s" and w: "wf s"
    and ev: "length (events s) \<le> length (events u)"
    and ac: "\<And>r k. active (stub_of u r) k \<noteq> None \<Longrightarrow> active (stub_of u r) k = active (stub_of s r) k"
    and pd: "\<And>r. pending (stub_of u r) = pending (stub_of s r)
               \<or> (r = r0 \<and> length (events s) < length (events u)
                   \<and> pending (stub_of u r) = pending (stub_of s r) @ [length (events s)])"
    and op: "\<And>k. k < length (events s) \<Longrightarrow> e_options (events u ! k) = e_options (events s ! k)"
    and nw: "\<And>k r sg. k < length (events u) \<Longrightarrow> ActiveDelete r k \<in> set (listeners (events u ! k) sg) \<Longrightarrow>
              k < length (events s) \<and> ActiveDelete r k \<in> set (listeners (events s ! k) sg)"
    and kp: "\<And>k r. active (stub_of u r) k \<noteq> None \<Longrightarrow> k < length (events s) \<Longrightarrow>
              ActiveDelete r k \<in> set (listeners (events s ! k) Handled) \<Longrightarrow>
              ActiveDelete r k \<in> set (listeners (events u ! k) Handled)"
  shows "tracking u"
proof -
  have ts: "tracked s" "listed s" "queued_once s" using t by (simp_all add: tracking_def)
  have old: "x < length (events s)" if "x \<in> set (pending (stub_of s r))" for x r
    using wf_pendingD [OF w that] .
  have sub: "x \<in> set (pending (stub_of s r)) \<or> (r = r0 \<and> x = length (events s))"
    if "x \<in> set (pending (stub_of u r))" for x r
    using that pd [of r] by auto
  have "tracked u"
    unfolding tracked_def
  proof (intro allI impI)
    fix r k assume a: "active (stub_of u r) k \<noteq> None"
    then have b: "active (stub_of s r) k \<noteq> None" using ac [OF a] by simp
    then have c: "k < length (events s)" "active (stub_of s r) k = Some k"
      "\<not> falsy (event_waitForHandlers (events s ! k))"
      "ActiveDelete r k \<in> set (listeners (events s ! k) Handled)"
      "\<And>r'. k \<notin> set (pending (stub_of s r'))"
      using ts(1) by (auto simp: tracked_def)
    have "k \<notin> set (pending (stub_of u r'))" for r'
      using sub [of k r'] c(1,5) by auto
    then show "k < length (events u) \<and> active (stub_of u r) k = Some k
      \<and> \<not> falsy (event_waitForHandlers (events u ! k))
      \<and> ActiveDelete r k \<in> set (listeners (events u ! k) Handled)
      \<and> (\<forall>r'. k \<notin> set (pending (stub_of u r')))"
      using c ev ac [OF a] op [OF c(1)] kp [OF a c(1) c(4)]
      by (simp add: event_waitForHandlers_def)
  qed
  moreover have "listed u"
    unfolding listed_def using nw ts(2) by (fastforce simp: listed_def)
  moreover have "queued_once u"
    unfolding queued_once_def
  proof (intro conjI allI impI)
    fix r
    have "distinct (pending (stub_of s r))" using ts(3) by (simp add: queued_once_def)
    then show "distinct (pending (stub_of u r))"
      using pd [of r] old [of "length (events s)" r] by auto
  next
    fix r r' :: string assume n: "r \<noteq> r'"
    have d: "set (pending (stub_of s r)) \<inter> set (pending (stub_of s r')) = {}"
      using ts(3) n by (simp add: queued_once_def)
    show "set (pending (stub_of u r)) \<inter> set (pending (stub_of u r')) = {}"
    proof (rule ccontr)
      assume "set (pending (stub_of u r)) \<inter> set (pending (stub_of u r')) \<noteq> {}"
      then obtain x where x: "x \<in> set (pending (stub_of u r))" "x \<in> set (pending (stub_of u r'))"
        by auto
      then show False
        using sub [OF x(1)] sub [OF x(2)] d n old [of x r] old [of x r'] by auto
    qed
  qed
  ultimately show ?thesis by (simp add: tracking_def)
qed

lemma tracking_event_emit:
  assumes "tracking s" and "wf s"
  shows "tracking (event_emit k' sg v s)"
proof (rule tracking_frame [OF assms, where ?r0.0 = "[]"])
  show "active (stub_of (event_emit k' sg v s) r) k = active (stub_of s r) k"
    if "active (stub_of (event_emit k' sg v s) r) k \<noteq> None" for r k
    using that by (simp add: active_event_emit split: if_splits)
  show "k < length (events s) \<and> ActiveDelete r k \<in> set (listeners (events s ! k) sg')"
    if "k < length (events (event_emit k' sg v s))"
      "ActiveDelete r k \<in> set (listeners (events (event_emit k' sg v s) ! k) sg')" for k r sg'
    using that by (auto simp: listeners_event_emit split: if_splits)
  show "ActiveDelete r k \<in> set (listeners (events (event_emit k' sg v s) ! k) Handled)"
    if "active (stub_of (event_emit k' sg v s) r) k \<noteq> None" "k < length (events s)"
      "ActiveDelete r k \<in> set (listeners (events s ! k) Handled)" for k r
    using that by (auto simp: listeners_event_emit active_event_emit split: if_splits)
qed simp_all

lemma tracking_same:
  assumes "tracking s" and "wf s" and "events u = events s"
    and "\<And>r. active (stub_of u r) = active (stub_of s r)"
    and "\<And>r. pending (stub_of u r) = pending (stub_of s r)"
  shows "tracking u"
  by (rule tracking_frame [OF assms(1,2), where ?r0.0 = "[]"]) (simp_all add: assms(3,4,5))

lemma tracking_settle: "tracking s \<Longrightarrow> wf s \<Longrightarrow> tracking (settle k outcome s)"
  by (rule tracking_frame [where ?r0.0 = "[]" and s = s]) (auto simp: events_settle split: if_splits)

lemma events_promise_executor_other:
  "i \<noteq> k \<Longrightarrow> events (promise_executor k sig opts s) ! i = events s ! i"
  by (simp add: promise_executor_def Let_def case_prod_beta events_event_once events_upd_event)

lemma emit_keeps_record:
  assumes "i < length (events s)"
  shows "events (snd (emitWithOptions recipientId n a ov s)) ! i = events s ! i"
    and "events (snd (emit_v1 recipientId n a s)) ! i = events s ! i"
  using assms
  by (simp_all add: emitWithOptions_def emit_v1_def Let_def case_prod_beta events_upd_event
      events_promise_executor_other events_event_once events_new_Event)

lemma active_notify [simp]: "active (stub_of (notify r s) r') = active (stub_of s r')"
  by (simp add: stub_of_notify)

lemma emitWithOptions_active [simp]:
  "active (stub_of (snd (emitWithOptions recipientId n a ov s)) r) = active (stub_of s r)"
  by (simp add: emitWithOptions_def Let_def case_prod_beta)

lemma pull_stub [simp]:
  "active (stub_of (snd (pull recipientId t s)) r) = active (stub_of s r)"
  "pending (stub_of (snd (pull recipientId t s)) r) = pending (stub_of s r)"
  by (simp_all add: pull_def Let_def case_prod_beta)

lemma promise_executor_no_delete:
  "ActiveDelete r x \<in> set (listeners (events (promise_executor k sig opts s) ! k) sg) \<Longrightarrow>
   ActiveDelete r x \<in> set (listeners (events s ! k) sg)"
  by (auto simp: promise_executor_def Let_def case_prod_beta events_event_once events_upd_event
      split: if_splits)

lemma emitWithOptions_new_listeners:
  assumes "length (events s) < length (events (snd (emitWithOptions recipientId n a ov s)))"
  shows "ActiveDelete r x \<notin> set (listeners (events (snd (emitWithOptions recipientId n a ov s)) ! length (events s)) sg)"
proof -
  have "ActiveDelete r x \<notin> set (listeners (events (promise_executor (length (events s)) sig opts u) ! length (events s)) sg)"
    if "listeners (events u ! length (events s)) = (\<lambda>sig. [])" for u sig opts
    using promise_executor_no_delete [of r x "length (events s)" sig opts u sg] that by auto
  then show ?thesis
    using assms
    by (auto simp: emitWithOptions_def Let_def case_prod_beta events_upd_event events_new_Event
        split: if_splits)
qed

lemma tracking_emitWithOptions:
  assumes t: "tracking s" and w: "wf s"
  shows "tracking (snd (emitWithOptions recipientId n a ov s))"
proof (rule tracking_frame [OF t w, where ?r0.0 = "key_of recipientId"])
  let ?u = "snd (emitWithOptions recipientId n a ov s)"
  show "length (events s) \<le> length (events ?u)" by (simp add: emitWithOptions_events)
  show "pending (stub_of ?u r) = pending (stub_of s r)
      \<or> (r = key_of recipientId \<and> length (events s) < length (events ?u)
          \<and> pending (stub_of ?u r) = pending (stub_of s r) @ [length (events s)])" for r
    by (simp add: emitWithOptions_pending emitWithOptions_events)
  show "e_options (events ?u ! k) = e_options (events s ! k)" if "k < length (events s)" for k
    using that by (simp add: emit_keeps_record)
  show "k < length (events s) \<and> ActiveDelete r k \<in> set (listeners (events s ! k) sg)"
    if "k < length (events ?u)" "ActiveDelete r k \<in> set (listeners (events ?u ! k) sg)" for k r sg
  proof (cases "k < length (events s)")
    case True
    then show ?thesis using that by (simp add: emit_keeps_record)
  next
    case False
    then have k: "k = length (events s)" using that(1) by (simp add: emitWithOptions_events split: if_splits)
    then show ?thesis using that emitWithOptions_new_listeners [of s recipientId n a ov r k sg] by simp
  qed
  show "ActiveDelete r k \<in> set (listeners (events ?u ! k) Handled)"
    if "k < length (events s)" "ActiveDelete r k \<in> set (listeners (events s ! k) Handled)" for k r
    using that by (simp add: emit_keeps_record)
qed simp_all

lemma tracking_pull:
  assumes "tracking s" and "wf s"
  shows "tracking (snd (pull recipientId t s))"
proof (rule tracking_same [OF assms])
  show "events (snd (pull recipientId t s)) = events s"
    by (simp add: pull_def Let_def case_prod_beta)
qed simp_all

lemma tracking_track:
  assumes t: "tracking s" and w: "wf s" and k: "k < length (events s)"
    and fresh: "\<And>r'. k \<notin> set (pending (stub_of s r'))" and r: "r \<noteq> proto"
  shows "tracking (track r k s)"
proof (cases "falsy (event_waitForHandlers (events s ! k))")
  case True
  then show ?thesis using t by (simp add: track_def)
next
  case False
  let ?u = "track r k s"
  have ts: "tracked s" "listed s" "queued_once s" using t by (simp_all add: tracking_def)
  have u: "?u = event_once k Handled (ActiveDelete r k)
      (upd_stub r (\<lambda>st. st\<lparr>active := (active st)(k \<mapsto> k)\<rparr>) s)"
    using False by (simp add: track_def)
  have act: "active (stub_of ?u r') x = (if r' = r \<and> x = k then Some k else active (stub_of s r') x)"
    for r' x
    using r by (simp add: u)
  have lst: "listeners (events ?u ! x) sg
      = (if x = k \<and> sg = Handled then listeners (events s ! k) Handled @ [ActiveDelete r k]
         else listeners (events s ! x) sg)" for x sg
    using k by (simp add: u events_event_once)
  have opt: "e_options (events ?u ! x) = e_options (events s ! x)" for x
    by (simp add: u events_event_once)
  have "tracked ?u"
    unfolding tracked_def
  proof (intro allI impI)
    fix r' x assume a: "active (stub_of ?u r') x \<noteq> None"
    show "x < length (events ?u) \<and> active (stub_of ?u r') x = Some x
      \<and> \<not> falsy (event_waitForHandlers (events ?u ! x))
      \<and> ActiveDelete r' x \<in> set (listeners (events ?u ! x) Handled)
      \<and> (\<forall>r''. x \<notin> set (pending (stub_of ?u r'')))"
    proof (cases "r' = r \<and> x = k")
      case True
      then show ?thesis using k False fresh by (simp add: act lst event_waitForHandlers_def opt)
    next
      case F: False
      then have "active (stub_of s r') x \<noteq> None" using a by (auto simp: act)
      then have c: "x < length (events s)" "active (stub_of s r') x = Some x"
        "\<not> falsy (event_waitForHandlers (events s ! x))"
        "ActiveDelete r' x \<in> set (listeners (events s ! x) Handled)"
        "\<And>r''. x \<notin> set (pending (stub_of s r''))"
        using ts(1) by (auto simp: tracked_def)
      then show ?thesis using F by (auto simp: act lst event_waitForHandlers_def opt)
    qed
  qed
  moreover have "listed ?u"
    using ts(2) by (auto simp: listed_def lst split: if_splits)
  moreover have "queued_once ?u" using ts(3) by (simp add: queued_once_def)
  ultimately show ?thesis by (simp add: tracking_def)
qed

lemma tracking_shift:
  assumes t: "tracking s" and c: "pending (stub_of s r) = k # rest"
  shows "tracking (upd_stub r (\<lambda>st. st\<lparr>pending := rest\<rparr>) s)"
    and "\<And>r'. k \<notin> set (pending (stub_of (upd_stub r (\<lambda>st. st\<lparr>pending := rest\<rparr>) s) r'))"
proof -
  let ?u = "upd_stub r (\<lambda>st. st\<lparr>pending := rest\<rparr>) s"
  have r: "r \<noteq> proto" using nonempty_not_proto [OF c] .
  have ts: "tracked s" "listed s" "queued_once s" using t by (simp_all add: tracking_def)
  have pd: "pending (stub_of ?u r') = (if r' = r then rest else pending (stub_of s r'))" for r'
    using r by simp
  have sub: "set (pending (stub_of ?u r')) \<subseteq> set (pending (stub_of s r'))" for r'
    using c by (auto simp: pd)
  have d: "distinct (pending (stub_of s r'))" for r' using ts(3) by (simp add: queued_once_def)
  have dj: "set (pending (stub_of s r')) \<inter> set (pending (stub_of s r'')) = {}" if "r' \<noteq> r''" for r' r''
    using ts(3) that by (simp add: queued_once_def)
  show "k \<notin> set (pending (stub_of ?u r'))" for r'
  proof (cases "r' = r")
    case True
    then show ?thesis using d [of r] c by (simp add: pd)
  next
    case False
    then show ?thesis using dj [of r r'] c by (auto simp: pd)
  qed
  have ac: "active (stub_of ?u r') = active (stub_of s r')" for r'
    using r by simp
  have "tracked ?u"
    unfolding tracked_def
  proof (intro allI impI)
    fix r' x assume "active (stub_of ?u r') x \<noteq> None"
    then have "active (stub_of s r') x \<noteq> None" unfolding ac .
    then have c: "x < length (events s)" "active (stub_of s r') x = Some x"
      "\<not> falsy (event_waitForHandlers (events s ! x))"
      "ActiveDelete r' x \<in> set (listeners (events s ! x) Handled)"
      "\<And>r''. x \<notin> set (pending (stub_of s r''))"
      using ts(1) by (auto simp: tracked_def)
    have "x \<notin> set (pending (stub_of ?u r''))" for r'' using c(5) [of r''] sub [of r''] by blast
    then show "x < length (events ?u) \<and> active (stub_of ?u r') x = Some x
      \<and> \<not> falsy (event_waitForHandlers (events ?u ! x))
      \<and> ActiveDelete r' x \<in> set (listeners (events ?u ! x) Handled)
      \<and> (\<forall>r''. x \<notin> set (pending (stub_of ?u r'')))"
      unfolding ac using c by simp
  qed
  moreover have "listed ?u" using ts(2) by (simp add: listed_def)
  moreover have "queued_once ?u"
    unfolding queued_once_def
  proof (intro conjI allI impI)
    show "distinct (pending (stub_of ?u r'))" for r' using d [of r'] c by (auto simp: pd)
    show "set (pending (stub_of ?u r')) \<inter> set (pending (stub_of ?u r'')) = {}" if "r' \<noteq> r''" for r' r''
      using dj [OF that] sub [of r'] sub [of r''] by blast
  qed
  ultimately show "tracking ?u" by (simp add: tracking_def)
qed

lemma tracking_pull_then:
  assumes t: "tracking s" and w: "wf s"
  shows "tracking (pull_then q s)"
proof -
  let ?r = "recipient (pulls s ! q)"
  let ?s1 = "upd_stub ?r (\<lambda>st. st\<lparr>waitingSoNotify := None\<rparr>) s"
  have w1: "wf ?s1" using w by (rule wf_upd_stub_slot_None)
  have t1: "tracking ?s1" by (rule tracking_same [OF t w]) simp_all
  show ?thesis
  proof (cases "pending (stub_of s ?r)")
    case Nil
    have "tracking (enqueue (CatchJob q (TypeError ''Cannot read property of undefined'')) ?s1)"
      by (rule tracking_same [OF t1 w1]) simp_all
    then show ?thesis by (simp only: pull_then_Nil [OF Nil])
  next
    case (Cons k rest)
    let ?s2 = "upd_stub ?r (\<lambda>st. st\<lparr>pending := rest\<rparr>) ?s1"
    have np: "?r \<noteq> proto" using nonempty_not_proto [OF Cons] .
    have k: "k < length (events s)" using wf_pending_ConsD [OF w Cons] by simp
    have c1: "pending (stub_of ?s1 ?r) = k # rest" using Cons np by simp
    have w2: "wf ?s2" using w1 c1 by (rule wf_shift)
    have t2: "tracking ?s2" using t1 c1 by (rule tracking_shift(1))
    have f2: "k \<notin> set (pending (stub_of ?s2 r'))" for r' using tracking_shift(2) [OF t1 c1] .
    let ?s3 = "track ?r k ?s2"
    have w3: "wf ?s3" using w2 by (rule wf_track)
    have t3: "tracking ?s3" using t2 w2 _ f2 np by (rule tracking_track) (use k in simp)
    have t4: "tracking (event_emit k Pulled Undefined ?s3)" using t3 w3 by (rule tracking_event_emit)
    have w4: "wf (event_emit k Pulled Undefined ?s3)" using w3 by (rule wf_event_emit) (use k in simp)
    have "tracking (enqueue (CatchSkip q k) (event_emit k Pulled Undefined ?s3))"
      by (rule tracking_same [OF t4 w4]) simp_all
    then show ?thesis by (simp only: pull_then_Cons [OF Cons])
  qed
qed


lemma tracking_run_job:
  assumes t: "tracking s" and w: "wf s" and n: "\<forall>q b. j \<noteq> ThenJob_v1 q b"
  shows "tracking (run_job j s)"
proof (cases j)
  case (ThenJob q)
  then show ?thesis using tracking_pull_then [OF t w] by simp
next
  case (ThenJob_v1 q b)
  then show ?thesis using n by simp
qed (auto intro!: tracking_same [OF t w] simp: pull_catch_def Let_def)

lemma tracking_fire:
  assumes t: "tracking s" and w: "wf s"
  shows "tracking (fire h s)"
proof (cases "jobs s = [] \<and> h < length (timers s) \<and> status (timers s ! h) = Armed")
  case True
  show ?thesis
  proof (cases "callback (timers s ! h)")
    case (OnTimeout k m)
    have "tracking (settle k (Rejected (ETIMEDOUT m)) (set_status h Fired s))"
      by (rule tracking_frame [OF t w, where ?r0.0 = "[]"])
        (auto simp: events_settle split: if_splits)
    then show ?thesis using True OnTimeout by (simp add: fire_def)
  next
    case (RejectRace p e)
    have "tracking (enqueue (RaceReject p e) (set_status h Fired s))"
      by (rule tracking_same [OF t w]) simp_all
    then show ?thesis using True RejectRace by (simp add: fire_def)
  qed
next
  case False
  then show ?thesis using t by (auto simp: fire_def)
qed

lemma tracking_tick:
  assumes t: "tracking s" and w: "wf s" and n: "\<forall>q b. ThenJob_v1 q b \<notin> set (jobs s)"
  shows "tracking (tick s)"
proof (cases "jobs s")
  case Nil
  then show ?thesis using t by (simp add: tick_def)
next
  case (Cons j js)
  have 1: "tracking (s\<lparr>jobs := js\<rparr>)" by (rule tracking_same [OF t w]) simp_all
  have 2: "wf (s\<lparr>jobs := js\<rparr>)" using wf_dequeue(1) [OF w Cons] .
  have 3: "\<forall>q b. j \<noteq> ThenJob_v1 q b" using n Cons by auto
  show ?thesis using tracking_run_job [OF 1 2 3] Cons by (simp add: tick_def)
qed

lemma emitWithOptions_on_fulfilled [simp]:
  "on_fulfilled (pulls (snd (emitWithOptions recipientId n a ov s)) ! p) = on_fulfilled (pulls s ! p)"
  by (simp add: emitWithOptions_def Let_def case_prod_beta)

lemma newer_jobs_emitWithOptions:
  assumes "newer_jobs s" and "wf s"
  shows "newer_jobs (snd (emitWithOptions recipientId n a ov s))"
  using assms emitWithOptions_jobs [OF assms(2), of _ recipientId n a ov]
  by (fastforce simp: newer_jobs_def)

lemma newer_jobs_pull:
  assumes "newer_jobs s"
  shows "newer_jobs (snd (pull recipientId t s))"
  using assms
  by (auto simp: newer_jobs_def pull_def Let_def case_prod_beta pulls_new_pull nth_append less_Suc_eq)

lemma newer_jobs_event_emit:
  assumes "newer_jobs s"
  shows "newer_jobs (event_emit k sg v s)"
proof -
  obtain js where js: "jobs (event_emit k sg v s) = jobs s @ js" "\<forall>j\<in>set js. \<exists>k. j = CleanupCatch k"
    using jobs_event_emit by blast
  then show ?thesis using assms by (fastforce simp: newer_jobs_def)
qed

lemma newer_jobs_run_job:
  assumes "newer_jobs s" and "\<not> older_job j"
  shows "newer_jobs (run_job j s)"
proof (cases j)
  case (ThenJob q)
  show ?thesis
  proof (cases "pending (stub_of s (recipient (pulls s ! q)))")
    case Nil
    then show ?thesis using assms by (simp add: ThenJob pull_then_Nil newer_jobs_def)
  next
    case (Cons k rest)
    let ?u = "track (recipient (pulls s ! q)) k
       (upd_stub (recipient (pulls s ! q)) (\<lambda>st. st\<lparr>pending := rest\<rparr>)
         (upd_stub (recipient (pulls s ! q)) (\<lambda>st. st\<lparr>waitingSoNotify := None\<rparr>) s))"
    have "newer_jobs ?u" using assms by (simp add: newer_jobs_def)
    then have "newer_jobs (event_emit k Pulled Undefined ?u)" by (rule newer_jobs_event_emit)
    then show ?thesis by (simp add: ThenJob pull_then_Cons [OF Cons] newer_jobs_def)
  qed
qed (use assms in \<open>auto simp: newer_jobs_def pull_catch_def Let_def pulls_upd_pull\<close>)

lemma newer_jobs_tick: "newer_jobs s \<Longrightarrow> newer_jobs (tick s)"
proof (cases "jobs s")
  case Nil
  then show "newer_jobs s \<Longrightarrow> newer_jobs (tick s)" by (simp add: tick_def)
next
  case (Cons j js)
  assume n: "newer_jobs s"
  then have "newer_jobs (s\<lparr>jobs := js\<rparr>)" "\<not> older_job j" using Cons by (simp_all add: newer_jobs_def)
  then show "newer_jobs (tick s)" using Cons by (simp add: tick_def newer_jobs_run_job)
qed

lemma newer_jobs_fire: "newer_jobs s \<Longrightarrow> newer_jobs (fire h s)"
  by (cases "callback (timers s ! h)") (auto simp: fire_def newer_jobs_def jobs_settle)

lemma newer_jobs_step: "newer_jobs s \<Longrightarrow> wf s \<Longrightarrow> newer a \<Longrightarrow> newer_jobs (step a s)"
  by (cases a)
    (simp_all add: emit_def emitAndWait_def newer_jobs_emitWithOptions newer_jobs_pull signal_def
      newer_jobs_event_emit newer_jobs_tick newer_jobs_fire)

lemma tracking_step:
  assumes "tracking s" and "wf s" and "newer_jobs s" and "newer a"
  shows "tracking (step a s)"
proof (cases a)
  case Tick
  have "\<forall>q b. ThenJob_v1 q b \<notin> set (jobs s)" using assms(3) by (fastforce simp: newer_jobs_def)
  then show ?thesis using Tick tracking_tick [OF assms(1,2)] by simp
qed (use assms in \<open>simp_all add: emit_def emitAndWait_def tracking_emitWithOptions tracking_pull
      signal_def tracking_event_emit tracking_fire\<close>)

lemma tracking_run:
  assumes "tracking s" and "wf s" and "newer_jobs s" and "\<forall>a\<in>set acts. newer a"
  shows "tracking (run acts s) \<and> wf (run acts s) \<and> newer_jobs (run acts s)"
  using assms
proof (induction acts arbitrary: s)
  case Nil
  then show ?case by (simp add: run_def)
next
  case (Cons a acts)
  have "tracking (run acts (step a s)) \<and> wf (run acts (step a s)) \<and> newer_jobs (run acts (step a s))"
    using Cons.prems by (intro Cons.IH) (simp_all add: tracking_step wf_step newer_jobs_step)
  then show ?case by (simp add: run_def)
qed

lemma tracking_EventPool: "tracking (EventPool ov)" "newer_jobs (EventPool ov)"
  by (simp_all add: tracking_def tracked_def listed_def queued_once_def newer_jobs_def EventPool_def
      stub_of_def)

lemma listeners_track:
  "ActiveDelete r' x \<in> set (listeners (events (track r k s) ! i) sg) \<Longrightarrow>
   ActiveDelete r' x \<in> set (listeners (events s ! i) sg) \<or> sg = Handled"
  by (auto simp: track_def events_event_once split: if_splits)

lemma inserted_when_pulled:
  assumes t: "tracking s" and w: "wf s" and j: "jobs s = ThenJob p # js"
    and c: "pending (stub_of s (recipient (pulls s ! p))) = k # rest"
  shows "active (stub_of (tick s) (recipient (pulls s ! p))) k
     = (if \<not> falsy (event_waitForHandlers (events s ! k)) then Some k else None)"
proof -
  let ?r = "recipient (pulls s ! p)"
  let ?s0 = "s\<lparr>jobs := js\<rparr>"
  let ?s2 = "upd_stub ?r (\<lambda>st. st\<lparr>pending := rest\<rparr>)
         (upd_stub ?r (\<lambda>st. st\<lparr>waitingSoNotify := None\<rparr>) ?s0)"
  let ?s3 = "track ?r k ?s2"
  have np: "?r \<noteq> proto" using nonempty_not_proto [OF c] .
  have st: "stub_of ?s0 x = stub_of s x" for x by (simp add: stub_of_def)
  have c0: "pending (stub_of ?s0 (recipient (pulls ?s0 ! p))) = k # rest" using c by (simp add: st)
  have tk: "tick s = enqueue (CatchSkip p k) (event_emit k Pulled Undefined ?s3)"
    using pull_then_Cons [OF c0] j by (simp add: tick_def)
  have kl: "k < length (events s)" using wf_pendingD [OF w, of k ?r] c by simp
  have ts: "tracked s" "listed s" using t by (simp_all add: tracking_def)
  have out: "active (stub_of s ?r) k = None"
  proof (rule ccontr)
    assume "active (stub_of s ?r) k \<noteq> None"
    then have "k \<notin> set (pending (stub_of s ?r))" using ts(1) unfolding tracked_def by blast
    then show False using c by simp
  qed
  have nl: "ActiveDelete ?r k \<notin> set (listeners (events s ! k) Pulled)"
    using ts(2) kl unfolding listed_def by blast
  have e2: "events ?s2 = events s" by simp
  have nl3: "ActiveDelete ?r k \<notin> set (listeners (events ?s3 ! k) Pulled)"
    using listeners_track [of ?r k ?r k ?s2 k Pulled] nl unfolding e2 by blast
  have a3: "active (stub_of ?s3 ?r) k
     = (if \<not> falsy (event_waitForHandlers (events s ! k)) then Some k else None)"
    using np out by (simp add: track_def st)
  show ?thesis unfolding tk using nl3 a3 by (simp add: active_event_emit)
qed

lemma removed_when_handled:
  assumes t: "tracking s"
  shows "active (stub_of (signal k Handled v s) r) k = None"
proof (cases "active (stub_of s r) k = None")
  case True
  then show ?thesis by (simp add: signal_def active_event_emit)
next
  case False
  have "tracked s" using t by (simp add: tracking_def)
  then have "k < length (events s)" "ActiveDelete r k \<in> set (listeners (events s ! k) Handled)"
    using False unfolding tracked_def by blast+
  then show ?thesis by (simp add: signal_def active_event_emit)
qed

lemma pulling_eval:
  "jobs pulling = [ThenJob 0]" "pending (stub_of pulling ''r'') = [0]"
  "recipient (pulls pulling ! 0) = ''r''" "active (stub_of pulling ''r'') 0 = None"
  "event_waitForHandlers (events pulling ! 0) = Bool True"
  by (simp_all add: pulling_def model_defs)

lemma pulling_tick_eval:
  "active (stub_of (tick pulling) ''r'') 0 = Some 0"
  "listeners (events (tick pulling) ! 0) Handled = [Resolve 0, ActiveDelete ''r'' 0]"
  by (simp_all add: pulling_def model_defs)

text \<open>
  C8 on the older revision: \<open>pull\<close> puts the record into \<open>active\<close> when its third argument
  \<open>waitForResolution\<close> is true, whatever the record is, and registers nothing on it. After
  \<^verbatim>\<open>emit( "r", "e" )\<close>, \<^verbatim>\<open>pull( "r", 30000, true )\<close> and \<open>handled\<close> signalled on the record, the
  record has no options and no property \<open>waitForHandlers\<close>, and it is still in \<open>active\<close>.
\<close>

theorem record_kept_in_active_v1:
  "active (stub_of kept_v1 ''r'') 0 = Some 0 \<and> length (events kept_v1) = 1
   \<and> e_options (events kept_v1 ! 0) = None
   \<and> event_waitForHandlers (events kept_v1 ! 0) = Undefined
   \<and> listeners (events kept_v1 ! 0) Handled = []"
  by (simp add: kept_v1_def model_defs drain.simps)

text \<open>
  C8 on the newer revision. In every state a new pool gets to by calls of \<open>emit\<close>,
  \<open>emitAndWait\<close>, \<open>emitWithOptions\<close> and \<open>pull\<close>, signals on records, promise jobs and
  timers:

  \<^item> a record in the \<open>active\<close> map of a stub is stored there under its own identifier, its
    property \<open>waitForHandlers\<close> is true, it is in no pending queue, and the function that
    takes it off the map is registered for \<open>handled\<close> on it (\<open>tracked\<close>);
  \<^item> when the next promise job is the function a pull has passed to \<open>then\<close> and the
    pending queue of its recipient starts with record \<open>k\<close>, then after that job \<open>k\<close> is in
    the \<open>active\<close> map of the recipient's stub, under \<open>k\<close>, if its property
    \<open>waitForHandlers\<close> is true, and it is not there otherwise;
  \<^item> after \<open>handled\<close> is signalled on a record, the record is in the \<open>active\<close> map of no
    stub.
\<close>

theorem active_holds_pulled_unhandled_records:
  assumes "\<forall>a\<in>set acts. newer a"
  shows "tracked (run acts (EventPool ov))
    \<and> (\<forall>p js k rest.
         jobs (run acts (EventPool ov)) = ThenJob p # js
         \<and> pending (stub_of (run acts (EventPool ov)) (recipient (pulls (run acts (EventPool ov)) ! p))) = k # rest
         \<longrightarrow> active (stub_of (tick (run acts (EventPool ov))) (recipient (pulls (run acts (EventPool ov)) ! p))) k
             = (if \<not> falsy (event_waitForHandlers (events (run acts (EventPool ov)) ! k)) then Some k else None))
    \<and> (\<forall>k v r. active (stub_of (signal k Handled v (run acts (EventPool ov))) r) k = None)"
proof -
  have *: "tracking (run acts (EventPool ov))" "wf (run acts (EventPool ov))"
    using tracking_run [OF tracking_EventPool(1) wf_EventPool(1) tracking_EventPool(2) assms] by simp_all
  show ?thesis
    using * inserted_when_pulled [OF *] removed_when_handled [OF *(1)] by (simp add: tracking_def)
qed

theorem active_holds_pulled_unhandled_records_witness:
  "jobs pulling = [ThenJob 0] \<and> pending (stub_of pulling ''r'') = [0]
   \<and> recipient (pulls pulling ! 0) = ''r''
   \<and> event_waitForHandlers (events pulling ! 0) = Bool True
   \<and> active (stub_of pulling ''r'') 0 = None
   \<and> active (stub_of (tick pulling) ''r'') 0 = Some 0
   \<and> ActiveDelete ''r'' 0 \<in> set (listeners (events (tick pulling) ! 0) Handled)
   \<and> active (stub_of (signal 0 Handled Undefined (tick pulling)) ''r'') 0 = None"
proof -
  have 1: "\<forall>a\<in>set [EmitAndWait (Str ''r'') ''e'' [], Pull (Str ''r'') 30000]. newer a" by simp
  have 2: "\<forall>a\<in>set [EmitAndWait (Str ''r'') ''e'' [], Pull (Str ''r'') 30000, Tick]. newer a" by simp
  have 3: "run [EmitAndWait (Str ''r'') ''e'' [], Pull (Str ''r'') 30000, Tick] (EventPool no_overrides)
      = tick pulling" by (simp add: pulling_def run_def)
  have 4: "run [EmitAndWait (Str ''r'') ''e'' [], Pull (Str ''r'') 30000] (EventPool no_overrides)
      = pulling" by (simp add: pulling_def)
  note A = active_holds_pulled_unhandled_records [OF 1, of no_overrides, unfolded 4]
  note B = active_holds_pulled_unhandled_records [OF 2, of no_overrides, unfolded 3]
  have "jobs pulling = ThenJob 0 # []
      \<and> pending (stub_of pulling (recipient (pulls pulling ! 0))) = 0 # [] \<longrightarrow>
    active (stub_of (tick pulling) (recipient (pulls pulling ! 0))) 0
      = (if \<not> falsy (event_waitForHandlers (events pulling ! 0)) then Some 0 else None)"
    using A by blast
  then have 5: "active (stub_of (tick pulling) ''r'') 0 = Some 0"
    by (simp add: pulling_eval)
  have "tracked (tick pulling)" using B by blast
  then have 6: "ActiveDelete ''r'' 0 \<in> set (listeners (events (tick pulling) ! 0) Handled)"
    unfolding tracked_def using 5 by blast
  have 7: "active (stub_of (signal 0 Handled Undefined (tick pulling)) ''r'') 0 = None"
    using B by blast
  show ?thesis using 5 6 7 by (simp add: pulling_eval)
qed

end
